theory Spec2Isabelle
  imports Main "HOL-Library.Word"
begin

section \<open>Arithmetic used by the sieves\<close>

text \<open>
  The C code takes \<open>sqrt\<close> of a \<open>uint64_t\<close> in double precision and truncates the result.
  The model uses the exact integer square root; the two agree as long as the argument is
  exactly representable as a double (below \<open>2^52\<close>), which covers every range the
  specification speaks about.
\<close>

function isqrt_from :: "nat \<Rightarrow> nat \<Rightarrow> nat" where
  "isqrt_from n k = (if (k + 1) * (k + 1) \<le> n then isqrt_from n (k + 1) else k)"
  by pat_completeness auto
termination
proof (relation "measure (\<lambda>(n, k). n - k)")
  show "wf (measure (\<lambda>(n, k). n - k))" by simp
next
  fix n k :: nat
  assume a: "(k + 1) * (k + 1) \<le> n"
  have "k + 1 \<le> (k + 1) * (k + 1)" by simp
  with a have "k + 1 \<le> n" by linarith
  then show "((n, k + 1), (n, k)) \<in> measure (\<lambda>(n, k). n - k)" by simp
qed

declare isqrt_from.simps [simp del]

definition isqrt :: "nat \<Rightarrow> nat" where
  "isqrt n = isqrt_from n 0"

text \<open>Primality, stated from first principles.\<close>

definition prime_nat :: "nat \<Rightarrow> bool" where
  "prime_nat p = (1 < p \<and> (\<forall>d. d dvd p \<longrightarrow> d = 1 \<or> d = p))"

lemma prime_nat_ge_2: "prime_nat p \<Longrightarrow> 2 \<le> p"
  by (simp add: prime_nat_def)

lemma prime_nat_2: "prime_nat 2"
proof -
  have "d = 1 \<or> d = 2" if "d dvd 2" for d :: nat
  proof -
    from that have "d \<le> 2" by (auto dest: dvd_imp_le)
    moreover have "d \<noteq> 0" using that by (cases "d = 0") auto
    ultimately show ?thesis by arith
  qed
  then show ?thesis by (simp add: prime_nat_def)
qed

lemma prime_nat_3: "prime_nat 3"
proof -
  have "d = 1 \<or> d = 3" if "d dvd 3" for d :: nat
  proof -
    from that have "d \<le> 3" by (auto dest: dvd_imp_le)
    moreover have "d \<noteq> 0" using that by (cases "d = 0") auto
    moreover have "d \<noteq> 2" using that by (cases "d = 2") auto
    ultimately show ?thesis by arith
  qed
  then show ?thesis by (simp add: prime_nat_def)
qed

lemma prime_nat_product: "2 \<le> a \<Longrightarrow> 2 \<le> b \<Longrightarrow> \<not> prime_nat (a * b)"
proof
  assume a: "2 \<le> a" and b: "2 \<le> b" and p: "prime_nat (a * b)"
  have "a dvd a * b" by simp
  moreover from p have "\<forall>d. d dvd a * b \<longrightarrow> d = 1 \<or> d = a * b" by (simp add: prime_nat_def)
  ultimately have "a = 1 \<or> a = a * b" by blast
  with a b show False by auto
qed

lemma prime_factor_exists: "1 < n \<Longrightarrow> \<exists>p. prime_nat p \<and> p dvd n"
proof (induction n rule: less_induct)
  case (less n)
  show ?case
  proof (cases "prime_nat n")
    case True
    then show ?thesis by auto
  next
    case False
    with less.prems obtain d where d: "d dvd n" "d \<noteq> 1" "d \<noteq> n"
      by (auto simp add: prime_nat_def)
    with less.prems have "d \<noteq> 0" by auto
    with d less.prems have "1 < d" "d < n" 
      using dvd_imp_le [of d n] by auto
    with less.IH obtain p where "prime_nat p" "p dvd d" by blast
    with d(1) show ?thesis by (auto intro: dvd_trans)
  qed
qed

lemma composite_small_factor:
  assumes "1 < c" and "\<not> prime_nat c"
  shows "\<exists>q m. prime_nat q \<and> c = q * m \<and> q \<le> m"
proof -
  from assms obtain d where d: "d dvd c" "d \<noteq> 1" "d \<noteq> c"
    by (auto simp add: prime_nat_def)
  then obtain e where e: "c = d * e" by (auto simp add: dvd_def)
  from assms e d have d1: "1 < d" and e1: "1 < e"
    by (cases d; cases e; auto)+
  define a where "a = min d e"
  define b where "b = max d e"
  have ab: "c = a * b" "1 < a" "a \<le> b"
    using e d1 e1 by (auto simp add: a_def b_def min_def max_def mult.commute)
  from prime_factor_exists [OF ab(2)] obtain q where q: "prime_nat q" "q dvd a" by blast
  then obtain r where r: "a = q * r" by (auto simp add: dvd_def)
  have "r \<noteq> 0" using ab(2) r by (cases "r = 0") auto
  then have "q \<le> a" using r by (cases r) auto
  have "c = q * (r * b)" using ab(1) r by simp
  moreover have "q \<le> r * b"
  proof -
    have "b \<le> r * b" using \<open>r \<noteq> 0\<close> by (cases r) auto
    with \<open>q \<le> a\<close> ab(3) show ?thesis by linarith
  qed
  ultimately show ?thesis using q(1) by blast
qed

lemma candidate_factor_ge_5:
  assumes "prime_nat q" and "q dvd v" and "v mod 6 = 1 \<or> v mod 6 = 5"
  shows "5 \<le> q"
proof -
  have "2 \<le> q" using assms(1) by (rule prime_nat_ge_2)
  moreover have "q \<noteq> 2"
  proof
    assume "q = 2"
    with assms(2) have "v mod 2 = 0" by auto
    with assms(3) show False by presburger
  qed
  moreover have "q \<noteq> 3"
  proof
    assume "q = 3"
    with assms(2) have "v mod 3 = 0" by auto
    with assms(3) show False by presburger
  qed
  moreover have "q \<noteq> 4"
  proof
    assume "q = 4"
    then have "\<not> prime_nat q" using prime_nat_product [of 2 2] by simp
    with assms(1) show False by simp
  qed
  ultimately show ?thesis by arith
qed

lemma isqrt_from_spec:
  "k * k \<le> n \<Longrightarrow> isqrt_from n k * isqrt_from n k \<le> n \<and> n < (isqrt_from n k + 1) * (isqrt_from n k + 1)"
proof (induction n k rule: isqrt_from.induct)
  case (1 n k)
  show ?case
  proof (cases "(k + 1) * (k + 1) \<le> n")
    case True
    then show ?thesis using "1.IH" by (subst (1 2 3 4) isqrt_from.simps) simp
  next
    case False
    then show ?thesis using "1.prems" by (subst (1 2 3 4) isqrt_from.simps) simp
  qed
qed

lemma isqrt_spec: "isqrt n * isqrt n \<le> n" "n < (isqrt n + 1) * (isqrt n + 1)"
  using isqrt_from_spec [of 0 n] by (simp_all add: isqrt_def)

lemma le_isqrt: "q * q \<le> n \<Longrightarrow> q \<le> isqrt n"
proof (rule ccontr)
  assume a: "q * q \<le> n" and "\<not> q \<le> isqrt n"
  then have b: "isqrt n + 1 \<le> q" by linarith
  have "(isqrt n + 1) * (isqrt n + 1) \<le> q * q" by (rule mult_le_mono [OF b b])
  with isqrt_spec(2) [of n] a show False by linarith
qed

section \<open>Bit array (\<open>BITMAP\<close>)\<close>

text \<open>
  Modelled from the spec: the bit array module (bitmap.h, bitmap.c) is not among the
  sources; only its callers are. Section 4.2 of the specification gives the operations:
  a fixed-capacity sequence of bits with create, set\_all, get, set, clear, clone,
  \<open>clear_stride(p, start, limit)\<close>, which "clears indices start, start+p, start+2p, ...
  while < limit", and \<open>duplicate_segment(start, seg_size, k)\<close>, after which "for each j in
  [1, k-1], the range [start + j*seg_size, start + (j+1)*seg_size) is a bitwise copy of
  [start, start + seg_size)". A fresh array holds zeros (\<open>construct_vx2\<close> only sets bits
  and relies on that). A bit array is a list of booleans of fixed length; an access past
  the end reads as 0 and a write past the end is dropped (the callers stay in range).
\<close>

type_synonym bitmap = "bool list"

definition bitmap_create :: "nat \<Rightarrow> bitmap" where
  "bitmap_create sz = replicate sz False"

definition bitmap_set_all :: "bitmap \<Rightarrow> bitmap" where
  "bitmap_set_all bm = replicate (length bm) True"

definition bitmap_get_bit :: "bitmap \<Rightarrow> nat \<Rightarrow> bool" where
  "bitmap_get_bit bm i = (i < length bm \<and> bm ! i)"

definition bitmap_set_bit :: "bitmap \<Rightarrow> nat \<Rightarrow> bitmap" where
  "bitmap_set_bit bm i = bm[i := True]"

definition bitmap_clear_bit :: "bitmap \<Rightarrow> nat \<Rightarrow> bitmap" where
  "bitmap_clear_bit bm i = bm[i := False]"

definition bitmap_clone :: "bitmap \<Rightarrow> bitmap" where
  "bitmap_clone bm = bm"

text \<open>
  \<open>bitmap_clear_mod_p(bitmap, p, start, limit)\<close>, the spec's \<open>clear_stride\<close>: the loop
  \<open>for (i = start; i < limit; i += p) clear(i)\<close>. Every caller passes \<open>p \<ge> 2\<close>; with
  \<open>p = 0\<close> the C loop would not end, and the model leaves the array as it is.
\<close>

function bitmap_clear_mod_p :: "bitmap \<Rightarrow> nat \<Rightarrow> nat \<Rightarrow> nat \<Rightarrow> bitmap" where
  "bitmap_clear_mod_p bm p i limit =
     (if i < limit \<and> 0 < p then bitmap_clear_mod_p (bitmap_clear_bit bm i) p (i + p) limit
      else bm)"
  by pat_completeness auto
termination
  by (relation "measure (\<lambda>(bm, p, i, limit). limit - i)") auto

declare bitmap_clear_mod_p.simps [simp del]

definition bitmap_duplicate_segment :: "bitmap \<Rightarrow> nat \<Rightarrow> nat \<Rightarrow> nat \<Rightarrow> bitmap" where
  "bitmap_duplicate_segment bm start seg_size k =
     map (\<lambda>i. if start + seg_size \<le> i \<and> i < start + k * seg_size
               then bm ! (start + (i - start) mod seg_size) else bm ! i)
         [0..<length bm]"

subsection \<open>What each operation does to a bit\<close>

lemma length_bitmap_create [simp]: "length (bitmap_create n) = n"
  by (simp add: bitmap_create_def)

lemma length_bitmap_set_all [simp]: "length (bitmap_set_all bm) = length bm"
  by (simp add: bitmap_set_all_def)

lemma length_bitmap_set_bit [simp]: "length (bitmap_set_bit bm i) = length bm"
  by (simp add: bitmap_set_bit_def)

lemma length_bitmap_clear_bit [simp]: "length (bitmap_clear_bit bm i) = length bm"
  by (simp add: bitmap_clear_bit_def)

lemma length_bitmap_clear_mod_p [simp]: "length (bitmap_clear_mod_p bm p i limit) = length bm"
  by (induction bm p i limit rule: bitmap_clear_mod_p.induct)
     (subst bitmap_clear_mod_p.simps, simp)

lemma length_bitmap_duplicate_segment [simp]:
  "length (bitmap_duplicate_segment bm s seg k) = length bm"
  by (simp add: bitmap_duplicate_segment_def)

lemma get_bitmap_create [simp]: "bitmap_get_bit (bitmap_create n) i = False"
  by (simp add: bitmap_get_bit_def bitmap_create_def)

lemma get_bitmap_set_all [simp]: "bitmap_get_bit (bitmap_set_all bm) i = (i < length bm)"
  by (auto simp add: bitmap_get_bit_def bitmap_set_all_def)

lemma get_bitmap_set_bit:
  "bitmap_get_bit (bitmap_set_bit bm j) i = (if i = j then i < length bm else bitmap_get_bit bm i)"
  by (cases "i = j") (auto simp add: bitmap_get_bit_def bitmap_set_bit_def)

lemma get_bitmap_clear_bit:
  "bitmap_get_bit (bitmap_clear_bit bm j) i = (i \<noteq> j \<and> bitmap_get_bit bm i)"
  by (cases "i = j") (auto simp add: bitmap_get_bit_def bitmap_clear_bit_def)

lemma get_bitmap_clear_mod_p:
  "0 < p \<Longrightarrow> bitmap_get_bit (bitmap_clear_mod_p bm p s limit) i =
     (bitmap_get_bit bm i \<and> \<not> (s \<le> i \<and> i < limit \<and> (i - s) mod p = 0))"
proof (induction bm p s limit rule: bitmap_clear_mod_p.induct)
  case (1 bm p s limit)
  show ?case
  proof (cases "s < limit")
    case False
    then show ?thesis
      by (subst bitmap_clear_mod_p.simps) auto
  next
    case True
    have step: "bitmap_clear_mod_p bm p s limit =
                  bitmap_clear_mod_p (bitmap_clear_bit bm s) p (s + p) limit"
      using True "1.prems" by (subst bitmap_clear_mod_p.simps) simp
    have ih: "bitmap_get_bit (bitmap_clear_mod_p (bitmap_clear_bit bm s) p (s + p) limit) i =
                (bitmap_get_bit (bitmap_clear_bit bm s) i
                 \<and> \<not> (s + p \<le> i \<and> i < limit \<and> (i - (s + p)) mod p = 0))"
      using "1.IH" True "1.prems" by simp
    have arith: "(s \<le> i \<and> (i - s) mod p = 0) = (i = s \<or> (s + p \<le> i \<and> (i - (s + p)) mod p = 0))"
    proof (cases "i = s")
      case True
      then show ?thesis by simp
    next
      case neq: False
      show ?thesis
      proof (cases "s + p \<le> i")
        case True
        then have "i - s = (i - (s + p)) + p" by simp
        then have "(i - s) mod p = (i - (s + p)) mod p" by (metis mod_add_self2)
        with True show ?thesis by auto
      next
        case False
        then have "s \<le> i \<Longrightarrow> i - s < p" by simp
        with neq False "1.prems" show ?thesis by auto
      qed
    qed
    show ?thesis
      unfolding step ih get_bitmap_clear_bit using arith True by auto
  qed
qed

lemma get_bitmap_duplicate_segment:
  "0 < seg \<Longrightarrow> bitmap_get_bit (bitmap_duplicate_segment bm s seg k) i =
     (if s + seg \<le> i \<and> i < s + k * seg
      then i < length bm \<and> bitmap_get_bit bm (s + (i - s) mod seg)
      else bitmap_get_bit bm i)"
proof -
  assume seg: "0 < seg"
  have "(i - s) mod seg < seg" using seg by simp
  then have "s + seg \<le> i \<Longrightarrow> i < length bm \<Longrightarrow> s + (i - s) mod seg < length bm"
    by linarith
  then show ?thesis
    by (auto simp add: bitmap_get_bit_def bitmap_duplicate_segment_def)
qed

section \<open>Result containers\<close>

subsection \<open>Prime list (\<open>PRIMES_OBJ\<close>, primes\_obj.h and primes\_obj.c)\<close>

text \<open>
  \<open>p_array\<close> holds \<open>uint64_t\<close> values, kept as natural numbers; \<open>sha256\<close> is the 32-byte
  digest field. The capacity chosen by \<open>primes_obj_init\<close> from the estimate
  \<open>pi_n(n) * 1.5\<close> is not modelled (\<open>pi_n\<close> is not among the sources); the list grows
  as needed and allocation is taken to succeed.
\<close>

type_synonym byte = "8 word"

record primes_obj =
  p_count :: nat
  p_array :: "nat list"
  sha256 :: "byte list"

definition primes_obj_empty :: primes_obj where
  "primes_obj_empty = \<lparr>p_count = 0, p_array = [], sha256 = replicate 32 0\<rparr>"

text \<open>
  \<open>primes_obj_init(initial_estimate)\<close> returns \<open>NULL\<close> (\<open>None\<close>) for an estimate that is
  not positive. The sieves call it with \<open>pi_n(n) * 1.5\<close>, taken to be positive for
  \<open>n \<ge> 10\<close>, and so start from \<open>primes_obj_empty\<close>.
\<close>

definition primes_obj_init :: "int \<Rightarrow> primes_obj option" where
  "primes_obj_init initial_estimate =
     (if initial_estimate \<le> 0 then None else Some primes_obj_empty)"

text \<open>\<open>primes_obj->p_array[primes_obj->p_count++] = p\<close>\<close>

definition primes_obj_append :: "primes_obj \<Rightarrow> nat \<Rightarrow> primes_obj" where
  "primes_obj_append obj p =
     obj\<lparr>p_array := take (p_count obj) (p_array obj) @ [p], p_count := p_count obj + 1\<rparr>"

text \<open>\<open>realloc\<close> to exactly \<open>p_count\<close> elements: what lies past \<open>p_count\<close> is given up.\<close>

definition primes_obj_resize_to_p_count :: "primes_obj \<Rightarrow> primes_obj" where
  "primes_obj_resize_to_p_count obj = obj\<lparr>p_array := take (p_count obj) (p_array obj)\<rparr>"



subsection \<open>The prime list file (primes\_obj.c)\<close>

text \<open>
  Integers are written in host byte order; the model takes a little-endian host.
  \<open>le_bytes k v\<close> are the \<open>k\<close> low bytes of \<open>v\<close>, \<open>le_value\<close> reads them back.
\<close>

primrec le_bytes :: "nat \<Rightarrow> nat \<Rightarrow> byte list" where
  "le_bytes 0 v = []"
| "le_bytes (Suc k) v = of_nat (v mod 256) # le_bytes k (v div 256)"

primrec le_value :: "byte list \<Rightarrow> nat" where
  "le_value [] = 0"
| "le_value (b # bs) = unat b + 256 * le_value bs"

text \<open>\<open>fread\<close> of \<open>c\<close> elements of 8 bytes each into \<open>p_array\<close>.\<close>

primrec decode_array :: "nat \<Rightarrow> byte list \<Rightarrow> nat list" where
  "decode_array 0 bs = []"
| "decode_array (Suc c) bs = le_value (take 8 bs) # decode_array c (drop 8 bs)"

text \<open>The bytes of the first \<open>p_count\<close> elements of \<open>p_array\<close> as they lie in memory.\<close>

definition body_bytes :: "primes_obj \<Rightarrow> byte list" where
  "body_bytes obj = concat (map (le_bytes 8) (take (p_count obj) (p_array obj)))"

text \<open>
  OpenSSL's \<open>SHA256\<close> is a parameter of the model, a function from the bytes hashed
  to the digest. \<open>primes_obj_verify_hash\<close> calls it on the \<open>p_count * 8\<close> bytes of
  the array.

  Modelled from the spec: \<open>hash_int_array\<close> (utils.c) is not among the sources; only its
  declaration and its callers are. \<open>primes_obj_compute_hash\<close> calls it with the array and
  \<open>p_count * sizeof(uint64_t)\<close>; by section 6 of the specification the stored trailer is
  the "32-byte SHA-256 of the body", so it is the same digest of the same bytes. Both
  functions fail (0, respectively -1) on an empty list and leave the object as it is.
\<close>

definition primes_obj_compute_hash :: "(byte list \<Rightarrow> byte list) \<Rightarrow> primes_obj \<Rightarrow> primes_obj" where
  "primes_obj_compute_hash SHA256 obj =
     (if p_count obj = 0 then obj else obj\<lparr>sha256 := SHA256 (body_bytes obj)\<rparr>)"

definition primes_obj_verify_hash :: "(byte list \<Rightarrow> byte list) \<Rightarrow> primes_obj \<Rightarrow> int" where
  "primes_obj_verify_hash SHA256 obj =
     (if p_count obj = 0 then - 1
      else if SHA256 (body_bytes obj) \<noteq> sha256 obj then - 1 else 0)"

text \<open>
  \<open>primes_obj_write_file\<close> writes \<open>p_count\<close> as a 4-byte \<open>int\<close>, the array and the 32
  bytes of the digest field; the result is the content of the file (opening the file is
  taken to succeed). \<open>primes_obj_read_file\<close> reads \<open>p_count\<close> back as a signed
  \<open>int\<close>, allocates with \<open>primes_obj_init(p_count)\<close>, reads array and digest, and on a
  failed \<open>primes_obj_verify_hash\<close> frees the object and returns \<open>NULL\<close> (\<open>None\<close>).
\<close>

definition primes_obj_write_file :: "(byte list \<Rightarrow> byte list) \<Rightarrow> primes_obj \<Rightarrow> byte list" where
  "primes_obj_write_file SHA256 obj =
     (let obj' = primes_obj_compute_hash SHA256 obj
      in le_bytes 4 (p_count obj') @ body_bytes obj' @ take 32 (sha256 obj'))"

definition primes_obj_read_file :: "(byte list \<Rightarrow> byte list) \<Rightarrow> byte list \<Rightarrow> primes_obj option" where
  "primes_obj_read_file SHA256 file =
     (let raw = le_value (take 4 file);
          pc = (if raw < 2 ^ 31 then int raw else int raw - 2 ^ 32)
      in case primes_obj_init pc of
           None \<Rightarrow> None
         | Some obj0 \<Rightarrow>
             let obj = obj0\<lparr>p_count := nat pc,
                             p_array := decode_array (nat pc) (take (8 * nat pc) (drop 4 file)),
                             sha256 := take 32 (drop (4 + 8 * nat pc) file)\<rparr>
             in if primes_obj_verify_hash SHA256 obj \<noteq> 0 then None else Some obj)"

lemma length_le_bytes [simp]: "length (le_bytes k v) = k"
  by (induction k arbitrary: v) simp_all

lemma le_value_le_bytes: "le_value (le_bytes k v) = v mod 256 ^ k"
proof (induction k arbitrary: v)
  case 0
  show ?case by simp
next
  case (Suc k)
  have "unat (of_nat (v mod 256) :: byte) = v mod 256"
    by (simp add: unat_of_nat)
  then have "le_value (le_bytes (Suc k) v) = v mod 256 + 256 * ((v div 256) mod 256 ^ k)"
    using Suc by simp
  also have "\<dots> = v mod (256 * 256 ^ k)"
    by (simp add: mod_mult2_eq)
  finally show ?case by simp
qed

lemma le_bytes_le_value: "length bs = k \<Longrightarrow> le_bytes k (le_value bs) = bs"
proof (induction bs arbitrary: k)
  case Nil
  then show ?case by simp
next
  case (Cons b bs)
  then obtain k' where k: "k = Suc k'" and l: "length bs = k'" by (cases k) auto
  have ub: "unat b < 256" using unsigned_less [of b, where ?'a = nat] by simp
  have m: "(unat b + 256 * le_value bs) mod 256 = unat b" using ub by simp
  have d: "(unat b + 256 * le_value bs) div 256 = le_value bs" using ub by simp
  have "(of_nat (unat b mod 256) :: byte) = b" using ub by simp
  then show ?case using Cons.IH [OF l] by (simp add: k m d)
qed

lemma decode_array_encode:
  "\<forall>p \<in> set xs. p < 2 ^ 64 \<Longrightarrow> decode_array (length xs) (concat (map (le_bytes 8) xs) @ rest) = xs"
proof (induction xs)
  case Nil
  show ?case by simp
next
  case (Cons x xs)
  have "le_value (le_bytes 8 x) = x"
    using Cons.prems by (simp add: le_value_le_bytes)
  then show ?case using Cons by simp
qed

lemma encode_decode_array:
  "length bs = 8 * c \<Longrightarrow> concat (map (le_bytes 8) (decode_array c bs)) = bs"
proof (induction c arbitrary: bs)
  case 0
  then show ?case by simp
next
  case (Suc c)
  have "le_bytes 8 (le_value (take 8 bs)) = take 8 bs"
    using Suc.prems by (intro le_bytes_le_value) simp
  moreover have "concat (map (le_bytes 8) (decode_array c (drop 8 bs))) = drop 8 bs"
    using Suc.prems by (intro Suc.IH) simp
  ultimately show ?case by simp
qed

lemma length_decode_array [simp]: "length (decode_array c bs) = c"
  by (induction c arbitrary: bs) simp_all


lemma read_file_parse:
  assumes pc: "0 < pc" "pc < 2 ^ 31" and lb: "length body = 8 * pc"
  shows "primes_obj_read_file SHA256 (le_bytes 4 pc @ body @ digest) =
           (if SHA256 body \<noteq> take 32 digest then None
            else Some \<lparr>p_count = pc, p_array = decode_array pc body, sha256 = take 32 digest\<rparr>)"
proof -
  have raw: "le_value (take 4 (le_bytes 4 pc @ body @ digest)) = pc"
    using pc by (simp add: le_value_le_bytes)
  have bb: "body_bytes \<lparr>p_count = pc, p_array = decode_array pc body, sha256 = take 32 digest\<rparr> = body"
    using lb by (simp add: body_bytes_def encode_decode_array)
  show ?thesis
    unfolding primes_obj_read_file_def raw
    using pc lb bb
    by (simp add: Let_def primes_obj_init_def primes_obj_empty_def primes_obj_verify_hash_def)
qed

lemma length_body_bytes:
  "length (p_array c) = p_count c \<Longrightarrow> length (body_bytes c) = 8 * p_count c"
  by (simp add: body_bytes_def length_concat comp_def sum_list_triv)

text \<open>
  Claim C9. For every populated prime list \<open>c\<close> (at least one element, \<open>p_count\<close> a
  positive \<open>int\<close>, the elements 64-bit values), reading back the file written by
  \<open>primes_obj_write_file\<close> gives a list with the same \<open>p_count\<close> and the same elements
  in the same order. And if one byte of the stored body is altered, the read fails the
  hash check and returns \<open>NULL\<close>. The digest is the parameter \<open>SHA256\<close>, any function
  with 32-byte values; that the digest of the altered body differs from the stored one
  is what "fails the hash check" rests on, and is stated as such.
\<close>

theorem primes_obj_file_round_trip:
  assumes "0 < p_count c" and "p_count c < 2 ^ 31" and "length (p_array c) = p_count c"
    and "\<forall>p \<in> set (p_array c). p < 2 ^ 64" and "\<forall>bs. length (SHA256 bs) = 32"
  shows "(\<exists>c'. primes_obj_read_file SHA256 (primes_obj_write_file SHA256 c) = Some c'
            \<and> p_count c' = p_count c \<and> p_array c' = p_array c)
         \<and> (\<forall>i b. i < length (body_bytes c) \<and> b \<noteq> body_bytes c ! i
                \<and> SHA256 ((body_bytes c)[i := b]) \<noteq> SHA256 (body_bytes c)
              \<longrightarrow> primes_obj_read_file SHA256 ((primes_obj_write_file SHA256 c)[4 + i := b]) = None)"
proof -
  let ?body = "body_bytes c"
  let ?dig = "SHA256 ?body"
  have lb: "length ?body = 8 * p_count c"
    using assms(3) by (rule length_body_bytes)
  have ld: "take 32 ?dig = ?dig"
    using assms(5) by simp
  have w: "primes_obj_write_file SHA256 c = le_bytes 4 (p_count c) @ ?body @ ?dig"
    using assms(1) ld by (simp add: primes_obj_write_file_def primes_obj_compute_hash_def Let_def body_bytes_def)
  have dec: "decode_array (p_count c) ?body = p_array c"
    using decode_array_encode [OF assms(4), of "[]"] assms(3) by (simp add: body_bytes_def)
  have r: "primes_obj_read_file SHA256 (primes_obj_write_file SHA256 c) =
             Some \<lparr>p_count = p_count c, p_array = p_array c, sha256 = ?dig\<rparr>"
    unfolding w using read_file_parse [OF assms(1,2) lb, of SHA256 ?dig] ld dec by simp
  have t: "primes_obj_read_file SHA256 ((primes_obj_write_file SHA256 c)[4 + i := b]) = None"
    if "i < length ?body" and "SHA256 (?body[i := b]) \<noteq> ?dig" for i b
  proof -
    have "(primes_obj_write_file SHA256 c)[4 + i := b] = le_bytes 4 (p_count c) @ ?body[i := b] @ ?dig"
      unfolding w using that(1) by (simp add: list_update_append)
    moreover have "length (?body[i := b]) = 8 * p_count c" using lb by simp
    ultimately show ?thesis
      using read_file_parse [OF assms(1,2), of "?body[i := b]" SHA256 ?dig] that(2) ld by simp
  qed
  show ?thesis using r t by auto
qed

text \<open>A stand-in digest for the concrete instance below: 32 copies of the byte sum.\<close>

definition toy_digest :: "byte list \<Rightarrow> byte list" where
  "toy_digest bs = replicate 32 (sum_list bs)"

theorem primes_obj_file_round_trip_witness:
  "(\<exists>c'. primes_obj_read_file toy_digest
            (primes_obj_write_file toy_digest \<lparr>p_count = 3, p_array = [2, 3, 5], sha256 = replicate 32 0\<rparr>) = Some c'
          \<and> p_count c' = 3 \<and> p_array c' = [2, 3, 5])
   \<and> primes_obj_read_file toy_digest
        ((primes_obj_write_file toy_digest \<lparr>p_count = 3, p_array = [2, 3, 5], sha256 = replicate 32 0\<rparr>)[4 + 0 := 7])
      = None"
proof -
  let ?c = "\<lparr>p_count = 3, p_array = [2, 3, 5], sha256 = replicate 32 0\<rparr>"
  have h: "0 < p_count ?c" "p_count ?c < 2 ^ 31" "length (p_array ?c) = p_count ?c"
    "\<forall>p \<in> set (p_array ?c). p < 2 ^ 64" "\<forall>bs. length (toy_digest bs) = 32"
    by (simp_all add: toy_digest_def)
  have g: "0 < length (body_bytes ?c) \<and> (7::byte) \<noteq> body_bytes ?c ! 0
           \<and> toy_digest ((body_bytes ?c)[0 := 7]) \<noteq> toy_digest (body_bytes ?c)"
    by code_simp
  note rt = primes_obj_file_round_trip [OF h]
  from rt have a: "\<exists>c'. primes_obj_read_file toy_digest (primes_obj_write_file toy_digest ?c) = Some c'
                    \<and> p_count c' = p_count ?c \<and> p_array c' = p_array ?c"
    by (rule conjunct1)
  from rt have "\<forall>i b. i < length (body_bytes ?c) \<and> b \<noteq> body_bytes ?c ! i
                  \<and> toy_digest ((body_bytes ?c)[i := b]) \<noteq> toy_digest (body_bytes ?c)
                \<longrightarrow> primes_obj_read_file toy_digest ((primes_obj_write_file toy_digest ?c)[4 + i := b]) = None"
    by (rule conjunct2)
  with g have b: "primes_obj_read_file toy_digest ((primes_obj_write_file toy_digest ?c)[4 + 0 := 7]) = None"
    by blast
  from a have a': "\<exists>c'. primes_obj_read_file toy_digest (primes_obj_write_file toy_digest ?c) = Some c'
                    \<and> p_count c' = 3 \<and> p_array c' = [2, 3, 5]"
    by (simp only: primes_obj.select_convs)
  from a' b show ?thesis by (rule conjI)
qed


subsection \<open>Gap list (\<open>VX_OBJ\<close>, vx\_obj.h and vx\_obj.c)\<close>

text \<open>
  \<open>GAP_TYPE\<close> is \<open>uint16_t\<close>; \<open>p_gaps\<close> is the array of gaps; the field \<open>p_count\<close>, an
  \<open>int\<close> that counts the gaps stored, is named \<open>g_count\<close> here, since the prime list has a
  field \<open>p_count\<close> of its own. The fields \<open>vx\<close> and \<open>y\<close> are named \<open>obj_vx\<close> and
  \<open>obj_y\<close>, and the \<open>y\<close> string is kept as the number it denotes.
  The capacity of the array (\<open>vx / 2\<close> slots chosen by \<open>vx_init\<close>) is not modelled: the
  list grows as needed.
\<close>

type_synonym gap_type = "16 word"

record vx_obj =
  obj_vx :: int
  obj_y :: nat
  g_count :: int
  p_gaps :: "gap_type list"
  bit_ops :: int
  p_test_ops :: int

definition vx_init :: "int \<Rightarrow> nat \<Rightarrow> vx_obj" where
  "vx_init v yv = \<lparr>obj_vx = v, obj_y = yv, g_count = 0, p_gaps = [], bit_ops = 0, p_test_ops = 0\<rparr>"

text \<open>
  \<open>vx_append_p_gap(vx_obj, gap)\<close>: \<open>vx_obj->p_gaps[vx_obj->p_count++] = gap\<close>. The argument
  is an \<open>int\<close>; the store into the \<open>uint16_t\<close> slot converts it, which keeps the value
  modulo \<open>2^16\<close>.
\<close>

definition vx_append_p_gap :: "vx_obj \<Rightarrow> int \<Rightarrow> vx_obj" where
  "vx_append_p_gap obj gap =
     obj\<lparr>p_gaps := p_gaps obj @ [word_of_int gap], g_count := g_count obj + 1\<rparr>"

text \<open>
  Claim C10. The gap that \<open>vx_append_p_gap\<close> records is the accumulated gap reduced
  modulo \<open>2^16\<close>: it is appended as the last element whatever its size (nothing is
  rejected), and every stored gap is at most 65535.
\<close>

theorem vx_append_p_gap_wraps:
  "p_gaps (vx_append_p_gap obj g) = p_gaps obj @ [word_of_int g]
   \<and> uint (last (p_gaps (vx_append_p_gap obj g))) = g mod 65536
   \<and> uint (last (p_gaps (vx_append_p_gap obj g))) \<le> 65535
   \<and> g_count (vx_append_p_gap obj g) = g_count obj + 1"
proof -
  have "uint (word_of_int g :: gap_type) = g mod 65536"
    by (simp add: uint_word_of_int)
  moreover have "g mod 65536 \<le> 65535"
    using pos_mod_bound [of 65536 g] by simp
  ultimately show ?thesis
    by (simp add: vx_append_p_gap_def)
qed


section \<open>The iZ decomposition (iZ.c)\<close>

text \<open>
  \<open>iZ(x, i)\<close> returns \<open>6 * x + i\<close> as a \<open>uint64_t\<close>. Its assertions (\<open>i\<close> is -1 or 1,
  \<open>x > 0\<close>) are preconditions here: every call in the sieves passes \<open>x \<ge> 1\<close> and a
  literal -1 or 1, and for such arguments the model is the C value.
\<close>

definition iZ :: "nat \<Rightarrow> int \<Rightarrow> nat" where
  "iZ x i = nat (6 * int x + i)"

text \<open>
  \<open>compute_limited_vx(x_n, vx_limit)\<close>: the loop
  \<open>while (vx * s_primes[i] < (x_n / 2) && i < vx_limit) { vx *= s_primes[i]; i++; }\<close>
  over an array of 13 small primes. The C loop reads \<open>s_primes[i]\<close> before it tests
  \<open>i < vx_limit\<close>; the model stops at the end of the array.
\<close>

definition s_primes13 :: "nat list" where
  "s_primes13 = [5, 7, 11, 13, 17, 19, 23, 29, 31, 37, 41, 43, 47]"

function compute_limited_vx_loop :: "nat \<Rightarrow> nat \<Rightarrow> nat \<Rightarrow> nat \<Rightarrow> nat" where
  "compute_limited_vx_loop x_n vx_limit v i =
     (if i < 13 \<and> v * (s_primes13 ! i) < x_n div 2 \<and> i < vx_limit
      then compute_limited_vx_loop x_n vx_limit (v * (s_primes13 ! i)) (i + 1)
      else v)"
  by pat_completeness auto
termination
  by (relation "measure (\<lambda>(x_n, vx_limit, v, i). 13 - i)") auto

declare compute_limited_vx_loop.simps [simp del]

definition compute_limited_vx :: "nat \<Rightarrow> nat \<Rightarrow> nat" where
  "compute_limited_vx x_n vx_limit = compute_limited_vx_loop x_n vx_limit 35 2"

text \<open>
  \<open>construct_vx2(x5, x7)\<close>: the pattern of 5 and 7 on the indices 1..35. It only sets
  bits, so both arrays must come in cleared.
\<close>

definition construct_vx2_step :: "nat \<Rightarrow> bitmap \<times> bitmap \<Rightarrow> bitmap \<times> bitmap" where
  "construct_vx2_step i st =
     (case st of (x5, x7) \<Rightarrow>
        (if (i - 1) mod 5 \<noteq> 0 \<and> (i + 1) mod 7 \<noteq> 0 then bitmap_set_bit x5 i else x5,
         if (i + 1) mod 5 \<noteq> 0 \<and> (i - 1) mod 7 \<noteq> 0 then bitmap_set_bit x7 i else x7))"

definition construct_vx2 :: "bitmap \<Rightarrow> bitmap \<Rightarrow> bitmap \<times> bitmap" where
  "construct_vx2 x5 x7 = fold construct_vx2_step [1..<36] (x5, x7)"

lemma bitmap_get_bit_in_range: "bitmap_get_bit bm i \<Longrightarrow> i < length bm"
  by (simp add: bitmap_get_bit_def)

lemma construct_vx2_step_fst:
  "bitmap_get_bit (fst (construct_vx2_step j st)) i =
     (bitmap_get_bit (fst st) i
      \<or> (i = j \<and> i < length (fst st) \<and> (i - 1) mod 5 \<noteq> 0 \<and> (i + 1) mod 7 \<noteq> 0))"
  by (cases st) (auto simp add: construct_vx2_step_def get_bitmap_set_bit dest: bitmap_get_bit_in_range)

lemma construct_vx2_step_snd:
  "bitmap_get_bit (snd (construct_vx2_step j st)) i =
     (bitmap_get_bit (snd st) i
      \<or> (i = j \<and> i < length (snd st) \<and> (i + 1) mod 5 \<noteq> 0 \<and> (i - 1) mod 7 \<noteq> 0))"
  by (cases st) (auto simp add: construct_vx2_step_def get_bitmap_set_bit dest: bitmap_get_bit_in_range)

lemma construct_vx2_step_length [simp]:
  "length (fst (construct_vx2_step j st)) = length (fst st)"
  "length (snd (construct_vx2_step j st)) = length (snd st)"
  by (cases st, simp add: construct_vx2_step_def)+

lemma construct_vx2_fold_length [simp]:
  "length (fst (fold construct_vx2_step [a..<b] st)) = length (fst st)"
  "length (snd (fold construct_vx2_step [a..<b] st)) = length (snd st)"
  by (induction b, simp_all)+

lemma construct_vx2_fold_fst:
  "bitmap_get_bit (fst (fold construct_vx2_step [a..<b] st)) i =
     (bitmap_get_bit (fst st) i
      \<or> (a \<le> i \<and> i < b \<and> i < length (fst st) \<and> (i - 1) mod 5 \<noteq> 0 \<and> (i + 1) mod 7 \<noteq> 0))"
proof (induction b)
  case 0
  show ?case by simp
next
  case (Suc b)
  show ?case
  proof (cases "a \<le> b")
    case True
    then show ?thesis
      using Suc by (simp add: construct_vx2_step_fst) (metis le_less_Suc_eq less_Suc_eq not_less)
  next
    case False
    then show ?thesis by auto
  qed
qed

lemma construct_vx2_fold_snd:
  "bitmap_get_bit (snd (fold construct_vx2_step [a..<b] st)) i =
     (bitmap_get_bit (snd st) i
      \<or> (a \<le> i \<and> i < b \<and> i < length (snd st) \<and> (i + 1) mod 5 \<noteq> 0 \<and> (i - 1) mod 7 \<noteq> 0))"
proof (induction b)
  case 0
  show ?case by simp
next
  case (Suc b)
  show ?case
  proof (cases "a \<le> b")
    case True
    then show ?thesis
      using Suc by (simp add: construct_vx2_step_snd) (metis le_less_Suc_eq less_Suc_eq not_less)
  next
    case False
    then show ?thesis by auto
  qed
qed

lemma get_construct_vx2:
  "bitmap_get_bit (fst (construct_vx2 x5 x7)) i =
     (bitmap_get_bit x5 i
      \<or> (1 \<le> i \<and> i \<le> 35 \<and> i < length x5 \<and> (i - 1) mod 5 \<noteq> 0 \<and> (i + 1) mod 7 \<noteq> 0))"
  "bitmap_get_bit (snd (construct_vx2 x5 x7)) i =
     (bitmap_get_bit x7 i
      \<or> (1 \<le> i \<and> i \<le> 35 \<and> i < length x7 \<and> (i + 1) mod 5 \<noteq> 0 \<and> (i - 1) mod 7 \<noteq> 0))"
  by (auto simp add: construct_vx2_def construct_vx2_fold_fst construct_vx2_fold_snd)

lemma length_construct_vx2 [simp]:
  "length (fst (construct_vx2 x5 x7)) = length x5"
  "length (snd (construct_vx2 x5 x7)) = length x7"
  by (simp_all add: construct_vx2_def)


text \<open>
  \<open>construct_iZm_segment(vx, x5, x7)\<close>: after \<open>construct_vx2\<close>, the loop
  \<open>while (vx % s_primes[idx] == 0)\<close> over an array of 10 small primes, from \<open>idx = 2\<close>.
  Each round copies the pattern \<open>p\<close> times, clears the bit of \<open>p\<close> itself and marks the
  two progressions of \<open>p\<close>. The test \<open>(p % 6) > 1\<close> holds for \<open>p = 6x - 1\<close>. As above the
  model stops at the end of the array.
\<close>

definition s_primes10 :: "nat list" where
  "s_primes10 = [5, 7, 11, 13, 17, 19, 23, 29, 31, 37]"

function construct_iZm_loop :: "nat \<Rightarrow> nat \<Rightarrow> nat \<Rightarrow> bitmap \<times> bitmap \<Rightarrow> bitmap \<times> bitmap" where
  "construct_iZm_loop v idx current_size st =
     (if idx < 10 \<and> v mod (s_primes10 ! idx) = 0
      then (case st of (x5, x7) \<Rightarrow>
        let p = s_primes10 ! idx;
            x = (p + 1) div 6;
            x5d = bitmap_duplicate_segment x5 1 current_size p;
            x7d = bitmap_duplicate_segment x7 1 current_size p;
            cs = current_size * p
        in construct_iZm_loop v (idx + 1) cs
             (if p mod 6 > 1
              then (bitmap_clear_mod_p (bitmap_clear_bit x5d x) p (p * x + x) (cs + 1),
                    bitmap_clear_mod_p x7d p (p * x - x) (cs + 1))
              else (bitmap_clear_mod_p x5d p (p * x - x) (cs + 1),
                    bitmap_clear_mod_p (bitmap_clear_bit x7d x) p (p * x + x) (cs + 1))))
      else st)"
  by pat_completeness auto
termination
  by (relation "measure (\<lambda>(v, idx, current_size, st). 10 - idx)") auto

declare construct_iZm_loop.simps [simp del]

definition construct_iZm_segment :: "nat \<Rightarrow> bitmap \<Rightarrow> bitmap \<Rightarrow> bitmap \<times> bitmap" where
  "construct_iZm_segment v x5 x7 = construct_iZm_loop v 2 35 (construct_vx2 x5 x7)"

text \<open>
  \<open>solve_for_x(matrix_id, p, vx, y)\<close> on \<open>uint64_t\<close>: every operation is the unsigned
  64-bit one, so \<open>vx * y\<close> and \<open>yvx - x_p\<close> wrap around.
\<close>

definition solve_for_x :: "int \<Rightarrow> 64 word \<Rightarrow> 64 word \<Rightarrow> 64 word \<Rightarrow> 64 word" where
  "solve_for_x matrix_id p v yy =
     (let x_p0 = (p + 1) div 6;
          p_id = (if p mod 6 = 1 then 1 else - 1 :: int);
          x_p = (if matrix_id = p_id then x_p0 else p - x_p0);
          yvx = v * yy
      in p - (yvx - x_p) mod p)"

text \<open>
  \<open>solve_for_x_gmp(matrix_id, p, vx, y)\<close>: \<open>x_p\<close> is computed as above on \<open>uint64_t\<close>
  (natural numbers here: \<open>p\<close> is a root prime, far below \<open>2^64\<close>), the product and the
  difference are big integers, and \<open>mpz_mod_ui\<close> returns the remainder in \<open>[0, p)\<close>.
\<close>

definition solve_for_x_gmp :: "int \<Rightarrow> nat \<Rightarrow> nat \<Rightarrow> int \<Rightarrow> nat" where
  "solve_for_x_gmp matrix_id p v yy =
     (let x_p0 = (p + 1) div 6;
          p_id = (if p mod 6 = 1 then 1 else - 1 :: int);
          x_p = (if matrix_id = p_id then x_p0 else p - x_p0);
          tmp = (yy * int v - int x_p) mod int p
      in p - nat tmp)"

text \<open>
  \<open>modular_inverse(int a, int m)\<close>: C division truncates towards zero and the remainder
  has the sign of the dividend; a division by zero traps, which is the result \<open>None\<close>.
  The loop \<open>while (a > 1)\<close> carries \<open>a\<close>, \<open>m\<close>, \<open>x0\<close> and \<open>x1\<close>.
\<close>

definition c_div :: "int \<Rightarrow> int \<Rightarrow> int" where
  "c_div a b = (if (a < 0) = (b < 0) then \<bar>a\<bar> div \<bar>b\<bar> else - (\<bar>a\<bar> div \<bar>b\<bar>))"

definition c_mod :: "int \<Rightarrow> int \<Rightarrow> int" where
  "c_mod a b = (if a < 0 then - (\<bar>a\<bar> mod \<bar>b\<bar>) else \<bar>a\<bar> mod \<bar>b\<bar>)"

function modular_inverse_loop :: "int \<Rightarrow> int \<Rightarrow> int \<Rightarrow> int \<Rightarrow> int option" where
  "modular_inverse_loop a m x0 x1 =
     (if a > 1
      then (if m = 0 then None
            else modular_inverse_loop m (c_mod a m) (x1 - c_div a m * x0) x0)
      else Some x1)"
  by pat_completeness auto
termination
proof (relation "measure (\<lambda>(a, m, x0, x1). nat \<bar>m\<bar>)")
  show "wf (measure (\<lambda>(a, m, x0, x1). nat \<bar>m\<bar>))" by simp
next
  fix a m x0 x1 :: int
  assume "1 < a" and m: "m \<noteq> 0"
  have nn: "0 \<le> \<bar>a\<bar> mod \<bar>m\<bar>"
    using m by simp
  have "\<bar>c_mod a m\<bar> \<le> \<bar>a\<bar> mod \<bar>m\<bar>"
    using nn by (simp add: c_mod_def)
  also have "\<dots> < \<bar>m\<bar>"
    using m by simp
  finally show "((m, c_mod a m, x1 - c_div a m * x0, x0), (a, m, x0, x1))
                  \<in> measure (\<lambda>(a, m, x0, x1). nat \<bar>m\<bar>)"
    by simp
qed

declare modular_inverse_loop.simps [simp del]

definition modular_inverse :: "int \<Rightarrow> int \<Rightarrow> int option" where
  "modular_inverse a m =
     (if m = 1 then Some 0
      else case modular_inverse_loop a m 0 1 of
             None \<Rightarrow> None
           | Some x1 \<Rightarrow> Some (if x1 < 0 then x1 + m else x1))"

text \<open>
  \<open>modular_inverse_gmp(mod_inv, a, m)\<close> on big integers: \<open>mpz_fdiv_q\<close> is the floor
  quotient and \<open>mpz_mod\<close> the remainder in \<open>[0, |m|)\<close>; both raise on a zero divisor
  (\<open>None\<close>). In the loop body \<open>t\<close> is set to \<open>x0\<close> and then overwritten by
  \<open>mpz_mul(t, q, x0)\<close>, so the final \<open>mpz_set(x1, t)\<close> stores \<open>q * x0\<close>.
\<close>

function modular_inverse_gmp_loop :: "int \<Rightarrow> int \<Rightarrow> int \<Rightarrow> int \<Rightarrow> int option" where
  "modular_inverse_gmp_loop temp_a temp_m x0 x1 =
     (if temp_a > 1
      then (if temp_m = 0 then None
            else (let q = temp_a div temp_m;
                      t = q * x0
                  in modular_inverse_gmp_loop temp_m (temp_a mod \<bar>temp_m\<bar>) (x1 - t) t))
      else Some x1)"
  by pat_completeness auto
termination
proof (relation "measure (\<lambda>(a, m, x0, x1). nat \<bar>m\<bar>)")
  show "wf (measure (\<lambda>(a, m, x0, x1). nat \<bar>m\<bar>))" by simp
next
  fix temp_a temp_m x0 x1 q t :: int
  assume "1 < temp_a" and m: "temp_m \<noteq> 0"
  have "0 \<le> temp_a mod \<bar>temp_m\<bar>" and "temp_a mod \<bar>temp_m\<bar> < \<bar>temp_m\<bar>"
    using m by simp_all
  then show "((temp_m, temp_a mod \<bar>temp_m\<bar>, x1 - t, t), (temp_a, temp_m, x0, x1))
               \<in> measure (\<lambda>(a, m, x0, x1). nat \<bar>m\<bar>)"
    by simp
qed

declare modular_inverse_gmp_loop.simps [simp del]

definition modular_inverse_gmp :: "int \<Rightarrow> int \<Rightarrow> int option" where
  "modular_inverse_gmp a m =
     (if m = 1 then Some 0
      else case modular_inverse_gmp_loop a m 0 1 of
             None \<Rightarrow> None
           | Some x1 \<Rightarrow> Some (if x1 < 0 then x1 + m else x1))"

section \<open>Sieves\<close>

subsection \<open>Classic sieve of Eratosthenes (sieve.c)\<close>

text \<open>
  The loop \<open>for (p = 2; p <= n; p++)\<close> of \<open>classic_sieve_eratosthenes\<close>, one step per
  \<open>p\<close>: the state is the bit array and the prime list.
\<close>

definition classic_step :: "nat \<Rightarrow> nat \<Rightarrow> nat \<Rightarrow> bitmap \<times> primes_obj \<Rightarrow> bitmap \<times> primes_obj" where
  "classic_step n n_sqrt p st =
     (case st of (n_bits, primes) \<Rightarrow>
        if bitmap_get_bit n_bits p
        then (if p \<le> n_sqrt then bitmap_clear_mod_p n_bits p (p * p) (n + 1) else n_bits,
              primes_obj_append primes p)
        else (n_bits, primes))"

definition classic_sieve_eratosthenes :: "nat \<Rightarrow> primes_obj option" where
  "classic_sieve_eratosthenes n =
     (if n < 10 then None
      else
        let n_bits = bitmap_set_all (bitmap_create (n + 1));
            n_sqrt = isqrt n;
            (n_bits', primes) = fold (classic_step n n_sqrt) [2..<n + 1] (n_bits, primes_obj_empty)
        in Some (primes_obj_resize_to_p_count primes))"

subsection \<open>Classic Sieve-iZ (sieve\_iZ.c)\<close>

text \<open>
  One pass of the body of \<open>for (x = 1; x < x_n; x++)\<close> in \<open>sieve_iZ\<close>: first the
  \<open>x5\<close> bit with \<open>p = iZ(x, -1)\<close>, then the \<open>x7\<close> bit with \<open>p = iZ(x, 1)\<close>, read after
  the first half has marked its composites.
\<close>

type_synonym sieve_state = "bitmap \<times> bitmap \<times> primes_obj"

definition sieve_iZ_x5 :: "nat \<Rightarrow> nat \<Rightarrow> nat \<Rightarrow> sieve_state \<Rightarrow> sieve_state" where
  "sieve_iZ_x5 n_sqrt lim x st =
     (case st of (x5, x7, primes) \<Rightarrow>
        if bitmap_get_bit x5 x
        then (let p = iZ x (-1); primes' = primes_obj_append primes p
              in if p < n_sqrt
                 then (bitmap_clear_mod_p x5 p (p * x + x) lim,
                       bitmap_clear_mod_p x7 p (p * x - x) lim, primes')
                 else (x5, x7, primes'))
        else st)"

definition sieve_iZ_x7 :: "nat \<Rightarrow> nat \<Rightarrow> nat \<Rightarrow> sieve_state \<Rightarrow> sieve_state" where
  "sieve_iZ_x7 n_sqrt lim x st =
     (case st of (x5, x7, primes) \<Rightarrow>
        if bitmap_get_bit x7 x
        then (let p = iZ x 1; primes' = primes_obj_append primes p
              in if p < n_sqrt
                 then (bitmap_clear_mod_p x5 p (p * x - x) lim,
                       bitmap_clear_mod_p x7 p (p * x + x) lim, primes')
                 else (x5, x7, primes'))
        else st)"

definition sieve_iZ_step :: "nat \<Rightarrow> nat \<Rightarrow> nat \<Rightarrow> sieve_state \<Rightarrow> sieve_state" where
  "sieve_iZ_step n_sqrt lim x st = sieve_iZ_x7 n_sqrt lim x (sieve_iZ_x5 n_sqrt lim x st)"

text \<open>
  The edge case after the loops of both iZ sieves:
  \<open>if (primes->p_array[primes->p_count - 1] > n) primes->p_count--;\<close> and then the trim.
\<close>

definition drop_overshoot :: "nat \<Rightarrow> primes_obj \<Rightarrow> primes_obj" where
  "drop_overshoot n primes =
     primes_obj_resize_to_p_count
       (if p_array primes ! (p_count primes - 1) > n
        then primes\<lparr>p_count := p_count primes - 1\<rparr> else primes)"

definition sieve_iZ :: "nat \<Rightarrow> primes_obj option" where
  "sieve_iZ n =
     (if n < 10 then None
      else
        let primes = primes_obj_append (primes_obj_append primes_obj_empty 2) 3;
            x_n = n div 6 + 1;
            x5 = bitmap_set_all (bitmap_create (x_n + 1));
            x7 = bitmap_set_all (bitmap_create (x_n + 1));
            n_sqrt = isqrt n + 1;
            (x5', x7', primes') = fold (sieve_iZ_step n_sqrt x_n) [1..<x_n] (x5, x7, primes)
        in Some (drop_overshoot n primes'))"

subsection \<open>Segmented Sieve-iZm (sieve\_iZ.c)\<close>

text \<open>
  The pre-sieved primes: \<open>for (i = 0; i < vx_limit; i++)\<close> appends \<open>s_primes[i]\<close> and
  counts \<open>start_i\<close> up while \<open>vx % s_primes[i] == 0\<close>, and breaks at the first prime
  that does not divide \<open>vx\<close>.
\<close>

fun iZm_presieved :: "nat \<Rightarrow> nat list \<Rightarrow> primes_obj \<times> nat \<Rightarrow> primes_obj \<times> nat" where
  "iZm_presieved v [] st = st"
| "iZm_presieved v (q # qs) (primes, start_i) =
     (if v mod q = 0 then iZm_presieved v qs (primes_obj_append primes q, start_i + 1)
      else (primes, start_i))"

text \<open>
  The first segment: the body of \<open>for (x = 2; x <= vx; x++)\<close>. It is the step of
  \<open>sieve_iZ\<close> with the root-prime test \<open>(p * p) / 6 < vx\<close> and the limit \<open>vx\<close>.
\<close>

definition iZm_first_x5 :: "nat \<Rightarrow> nat \<Rightarrow> sieve_state \<Rightarrow> sieve_state" where
  "iZm_first_x5 v x st =
     (case st of (x5, x7, primes) \<Rightarrow>
        if bitmap_get_bit x5 x
        then (let p = iZ x (-1); primes' = primes_obj_append primes p
              in if (p * p) div 6 < v
                 then (bitmap_clear_mod_p x5 p (p * x + x) v,
                       bitmap_clear_mod_p x7 p (p * x - x) v, primes')
                 else (x5, x7, primes'))
        else st)"

definition iZm_first_x7 :: "nat \<Rightarrow> nat \<Rightarrow> sieve_state \<Rightarrow> sieve_state" where
  "iZm_first_x7 v x st =
     (case st of (x5, x7, primes) \<Rightarrow>
        if bitmap_get_bit x7 x
        then (let p = iZ x 1; primes' = primes_obj_append primes p
              in if (p * p) div 6 < v
                 then (bitmap_clear_mod_p x5 p (p * x - x) v,
                       bitmap_clear_mod_p x7 p (p * x + x) v, primes')
                 else (x5, x7, primes'))
        else st)"

definition iZm_first_step :: "nat \<Rightarrow> nat \<Rightarrow> sieve_state \<Rightarrow> sieve_state" where
  "iZm_first_step v x st = iZm_first_x7 v x (iZm_first_x5 v x st)"

text \<open>
  The later segments. \<open>iZm_mark\<close> is the loop over the root primes
  \<open>for (i = start_i; i < primes->p_count; i++)\<close> with its \<open>break\<close>; the arguments of
  \<open>solve_for_x\<close> are converted to \<open>uint64_t\<close>. \<open>iZm_collect\<close> is the body of
  \<open>for (x = 2; x <= limit; x++)\<close>.
\<close>

fun iZm_mark :: "nat \<Rightarrow> nat \<Rightarrow> nat \<Rightarrow> nat \<Rightarrow> nat list \<Rightarrow> bitmap \<times> bitmap \<Rightarrow> bitmap \<times> bitmap" where
  "iZm_mark v yy yvx limit [] st = st"
| "iZm_mark v yy yvx limit (p # ps) (x5, x7) =
     (if (p * p) div 6 > yvx + limit then (x5, x7)
      else iZm_mark v yy yvx limit ps
             (bitmap_clear_mod_p x5 p
                (unat (solve_for_x (- 1) (of_nat p) (of_nat v) (of_nat yy))) limit,
              bitmap_clear_mod_p x7 p
                (unat (solve_for_x 1 (of_nat p) (of_nat v) (of_nat yy))) limit))"

definition iZm_collect :: "bitmap \<Rightarrow> bitmap \<Rightarrow> nat \<Rightarrow> nat \<Rightarrow> primes_obj \<Rightarrow> primes_obj" where
  "iZm_collect x5 x7 yvx x primes =
     (let primes1 = (if bitmap_get_bit x5 x then primes_obj_append primes (iZ (x + yvx) (- 1))
                     else primes)
      in if bitmap_get_bit x7 x then primes_obj_append primes1 (iZ (x + yvx) 1) else primes1)"

text \<open>
  One round of \<open>for (y = 1; y <= max_y; y++)\<close>; the state carried from round to round
  is \<open>limit\<close>, \<open>yvx\<close> and the prime list.
\<close>

definition iZm_segment ::
  "nat \<Rightarrow> nat \<Rightarrow> nat \<Rightarrow> nat \<Rightarrow> bitmap \<Rightarrow> bitmap \<Rightarrow> nat \<Rightarrow> nat \<times> nat \<times> primes_obj
   \<Rightarrow> nat \<times> nat \<times> primes_obj" where
  "iZm_segment v x_n max_y start_i base_x5 base_x7 yy st =
     (case st of (limit0, yvx, primes) \<Rightarrow>
        let limit = (if yy = max_y then x_n mod v else limit0);
            roots = drop start_i (take (p_count primes) (p_array primes));
            (x5, x7) = iZm_mark v yy yvx limit roots
                         (bitmap_clone base_x5, bitmap_clone base_x7);
            primes' = fold (iZm_collect x5 x7 yvx) [2..<limit + 1] primes
        in (limit, yvx + v, primes'))"

definition sieve_iZm :: "nat \<Rightarrow> primes_obj option" where
  "sieve_iZm n =
     (if n < 1000 then sieve_iZ n
      else
        let x_n = n div 6 + 1;
            primes = primes_obj_append (primes_obj_append primes_obj_empty 2) 3;
            vx_limit = 6;
            v = compute_limited_vx x_n vx_limit;
            (primes1, start_i) = iZm_presieved v (take vx_limit s_primes13) (primes, 2);
            (base_x5, base_x7) =
               construct_iZm_segment v (bitmap_create (v + 10)) (bitmap_create (v + 10));
            (x5, x7, primes2) =
               fold (iZm_first_step v) [2..<v + 1]
                 (bitmap_clone base_x5, bitmap_clone base_x7, primes1);
            max_y = x_n div v;
            (limit, yvx, primes3) =
               fold (iZm_segment v x_n max_y start_i base_x5 base_x7) [1..<max_y + 1]
                 (v, v, primes2)
        in Some (drop_overshoot n primes3))"

section \<open>Prime generation (prime\_gen.c)\<close>

text \<open>
  The big-integer backend is GMP. \<open>mpz_probab_prime_p(n, reps)\<close> is a parameter of the
  model, \<open>probab_prime n reps\<close>: a number is a probable prime when the test accepts it.
  \<open>TEST_ROUNDS\<close> is 25. \<open>iZ_gmp(z, x, i)\<close> sets \<open>z = 6x + 1\<close> for \<open>i > 0\<close> and
  \<open>z = 6x - 1\<close> otherwise; its assertions are preconditions, as for \<open>iZ\<close>.
\<close>

definition TEST_ROUNDS :: int where
  "TEST_ROUNDS = 25"

definition iZ_gmp :: "int \<Rightarrow> int \<Rightarrow> int" where
  "iZ_gmp x i = (if i > 0 then 6 * x + 1 else 6 * x - 1)"

subsection \<open>\<open>search_iZprime\<close>\<close>

text \<open>
  The first loop, \<open>while (1)\<close>: add 6 until \<open>gcd(vx, tmp) = 1\<close>. A loop that does not
  end is the value \<open>None\<close>.
\<close>

partial_function (option) coprime_search :: "int \<Rightarrow> int \<Rightarrow> int option" where
  "coprime_search v tmp =
     (let tmp' = tmp + 6 in if gcd v tmp' = 1 then Some tmp' else coprime_search v tmp')"

text \<open>
  The second loop, \<open>while (!found && attempts < attempts_limit)\<close>. Its body adds \<open>vx\<close>,
  runs the test and copies the candidate to \<open>p\<close> when it passes; \<open>attempts\<close> is not
  changed by the body. The result is the pair of \<open>found\<close> and \<open>p\<close>.
\<close>

partial_function (option) search_attempts ::
  "(int \<Rightarrow> int \<Rightarrow> bool) \<Rightarrow> int \<Rightarrow> int \<Rightarrow> int \<Rightarrow> bool \<Rightarrow> int \<Rightarrow> int \<Rightarrow> (bool \<times> int) option" where
  "search_attempts probab_prime v attempts_limit tmp found pp attempts =
     (if \<not> found \<and> attempts < attempts_limit
      then (let tmp' = tmp + v;
                found' = probab_prime tmp' TEST_ROUNDS
            in search_attempts probab_prime v attempts_limit tmp' found'
                 (if found' then tmp' else pp) attempts)
      else Some (found, pp))"

text \<open>
  \<open>search_iZprime(p, p_id, vx)\<close>; \<open>r\<close> is the value drawn by \<open>mpz_urandomm\<close> in
  \<open>[0, vx)\<close> and \<open>pp\<close> the value \<open>p\<close> holds at the call.
\<close>

definition search_iZprime ::
  "(int \<Rightarrow> int \<Rightarrow> bool) \<Rightarrow> int \<Rightarrow> int \<Rightarrow> int \<Rightarrow> int \<Rightarrow> (bool \<times> int) option" where
  "search_iZprime probab_prime r pp p_id v =
     (case coprime_search v (iZ_gmp r p_id) of
        None \<Rightarrow> None
      | Some tmp \<Rightarrow> search_attempts probab_prime v 1000000 tmp False pp 0)"

subsection \<open>\<open>iZ_next_prime\<close>\<close>

text \<open>
  The inner loops of one segment. Forward, \<open>for (x = start_x; x < end_x; x++)\<close> tests
  the \<open>x5\<close> candidate and then the \<open>x7\<close> candidate of each \<open>x\<close>; backward,
  \<open>for (x = start_x; x > end_x; x--)\<close> tests \<open>x7\<close> first. Each returns the first
  candidate the test accepts, \<open>None\<close> when the loop runs out.
\<close>

fun next_scan_forward ::
  "(int \<Rightarrow> int \<Rightarrow> bool) \<Rightarrow> bitmap \<Rightarrow> bitmap \<Rightarrow> int \<Rightarrow> int list \<Rightarrow> int option" where
  "next_scan_forward probab_prime x5 x7 yvx [] = None"
| "next_scan_forward probab_prime x5 x7 yvx (x # xs) =
     (if bitmap_get_bit x5 (nat x) \<and> probab_prime (iZ_gmp (yvx + x) (- 1)) TEST_ROUNDS
      then Some (iZ_gmp (yvx + x) (- 1))
      else if bitmap_get_bit x7 (nat x) \<and> probab_prime (iZ_gmp (yvx + x) 1) TEST_ROUNDS
      then Some (iZ_gmp (yvx + x) 1)
      else next_scan_forward probab_prime x5 x7 yvx xs)"

fun next_scan_backward ::
  "(int \<Rightarrow> int \<Rightarrow> bool) \<Rightarrow> bitmap \<Rightarrow> bitmap \<Rightarrow> int \<Rightarrow> int list \<Rightarrow> int option" where
  "next_scan_backward probab_prime x5 x7 yvx [] = None"
| "next_scan_backward probab_prime x5 x7 yvx (x # xs) =
     (if bitmap_get_bit x7 (nat x) \<and> probab_prime (iZ_gmp (yvx + x) 1) TEST_ROUNDS
      then Some (iZ_gmp (yvx + x) 1)
      else if bitmap_get_bit x5 (nat x) \<and> probab_prime (iZ_gmp (yvx + x) (- 1)) TEST_ROUNDS
      then Some (iZ_gmp (yvx + x) (- 1))
      else next_scan_backward probab_prime x5 x7 yvx xs)"

text \<open>
  The outer loop \<open>while (!found && i < max_i)\<close>: the first argument counts the rounds
  that are left (\<open>max_i - i\<close>), \<open>i\<close> is the segment counter.
\<close>

fun next_segments ::
  "nat \<Rightarrow> (int \<Rightarrow> int \<Rightarrow> bool) \<Rightarrow> bool \<Rightarrow> int \<Rightarrow> bitmap \<Rightarrow> bitmap \<Rightarrow> nat \<Rightarrow> int \<Rightarrow> int
   \<Rightarrow> int option" where
  "next_segments 0 probab_prime forward v x5 x7 i yvx start_x = None"
| "next_segments (Suc k) probab_prime forward v x5 x7 i yvx start_x =
     (if forward
      then (let sx = (if i > 0 then 1 else start_x)
            in case next_scan_forward probab_prime x5 x7 yvx [sx..v] of
                 Some q \<Rightarrow> Some q
               | None \<Rightarrow> next_segments k probab_prime forward v x5 x7 (i + 1) (yvx + v) sx)
      else (let sx = (if i > 0 then v else start_x)
            in case next_scan_backward probab_prime x5 x7 yvx (rev [2..sx]) of
                 Some q \<Rightarrow> Some q
               | None \<Rightarrow> next_segments k probab_prime forward v x5 x7 (i + 1) (yvx - v) sx))"

text \<open>
  \<open>iZ_next_prime(p, base, forward)\<close>: \<open>Some q\<close> when it returns 1 with \<open>p = q\<close>,
  \<open>None\<close> when it returns 0. \<open>mpz_fdiv_ui\<close> and \<open>mpz_div_ui\<close> are the floor remainder
  and quotient.
\<close>

definition iZ_next_prime :: "(int \<Rightarrow> int \<Rightarrow> bool) \<Rightarrow> int \<Rightarrow> bool \<Rightarrow> int option" where
  "iZ_next_prime probab_prime base forward =
     (let v = 5 * 7 * 11 * 13;
          edge_fwd = (base mod 6 = 5 \<and> forward);
          edge_bwd = (\<not> edge_fwd \<and> base mod 6 = 1 \<and> \<not> forward);
          tmp = (if edge_fwd then base + 2 else if edge_bwd then base - 2 else base)
      in if (edge_fwd \<or> edge_bwd) \<and> probab_prime tmp TEST_ROUNDS then Some tmp
         else
           let (x5, x7) = construct_iZm_segment (nat v) (bitmap_create (nat v + 10))
                            (bitmap_create (nat v + 10));
               yy = base div (6 * v);
               yvx = yy * v;
               x_p = tmp div 6;
               step = (if forward then 1 else - 1);
               start_x = x_p mod v + step
           in next_segments 1000 probab_prime forward v x5 x7 0 yvx start_x)"

section \<open>The VX kernel (sieve\_iZ.c and vx\_obj.c)\<close>

text \<open>
  \<open>VX_ASSETS\<close> holds the segment size, the root primes and the two pre-sieved base
  bitmaps. \<open>vx_assets_init(vx)\<close> stores the result of \<open>sieve_iZ(vx)\<close> as it is, so
  \<open>root_primes\<close> is \<open>NULL\<close> (\<open>None\<close>) for \<open>vx < 10\<close>.
\<close>

record vx_assets =
  assets_vx :: nat
  root_primes :: "primes_obj option"
  base_x5 :: bitmap
  base_x7 :: bitmap

definition vx_assets_init :: "nat \<Rightarrow> vx_assets" where
  "vx_assets_init v =
     (let (b5, b7) = construct_iZm_segment v (bitmap_create (v + 10)) (bitmap_create (v + 10))
      in \<lparr>assets_vx = v, root_primes = sieve_iZ v, base_x5 = b5, base_x7 = b7\<rparr>)"

text \<open>
  The deterministic sieve of \<open>sieve_vx\<close>: the loop over the root primes from index 2.
  The list argument holds the entries that are left; \<open>continue\<close> goes on with the rest
  of the list and \<open>break\<close> returns the state. \<open>vx % p\<close> with \<open>p = 0\<close> traps, which is
  the result \<open>None\<close>. The third component of the state is \<open>vx_obj->bit_ops\<close>.
\<close>

fun sieve_vx_roots ::
  "nat \<Rightarrow> int \<Rightarrow> nat \<Rightarrow> bool \<Rightarrow> nat list \<Rightarrow> bitmap \<times> bitmap \<times> int
   \<Rightarrow> (bitmap \<times> bitmap \<times> int) option" where
  "sieve_vx_roots v yy root_limit is_large_limit [] st = Some st"
| "sieve_vx_roots v yy root_limit is_large_limit (p # ps) (x5, x7, ops) =
     (if p = 0 then None
      else if v mod p = 0 then sieve_vx_roots v yy root_limit is_large_limit ps (x5, x7, ops)
      else if \<not> is_large_limit \<and> root_limit < p then Some (x5, x7, ops)
      else sieve_vx_roots v yy root_limit is_large_limit ps
             (bitmap_clear_mod_p x5 p (solve_for_x_gmp (- 1) p v yy) v,
              bitmap_clear_mod_p x7 p (solve_for_x_gmp 1 p v yy) v,
              ops + (2 * int v) div int p))"

text \<open>
  The emission pass. The loop body treats the \<open>x5\<close> candidate and the \<open>x7\<close> candidate
  with the same block of code: when the bit is set, the candidate is tested in the large
  mode only (and \<open>p_test_ops\<close> counts the test), and a candidate that is kept appends the
  accumulated gap and resets it. \<open>vx_emit_candidate\<close> is that block; the state is the
  pair of \<open>gap\<close> and the gap list.
\<close>

definition vx_emit_candidate ::
  "(int \<Rightarrow> int \<Rightarrow> bool) \<Rightarrow> bool \<Rightarrow> bool \<Rightarrow> int \<Rightarrow> int \<times> vx_obj \<Rightarrow> int \<times> vx_obj" where
  "vx_emit_candidate probab_prime is_large_limit is_set cand st =
     (case st of (gap, obj) \<Rightarrow>
        if is_set
        then (let is_prime = (if is_large_limit then probab_prime cand TEST_ROUNDS else True);
                  obj' = (if is_large_limit then obj\<lparr>p_test_ops := p_test_ops obj + 1\<rparr>
                          else obj)
              in if is_prime then (0, vx_append_p_gap obj' gap) else (gap, obj'))
        else (gap, obj))"

definition sieve_vx_emit ::
  "(int \<Rightarrow> int \<Rightarrow> bool) \<Rightarrow> bool \<Rightarrow> int \<Rightarrow> bitmap \<Rightarrow> bitmap \<Rightarrow> nat \<Rightarrow> int \<times> vx_obj
   \<Rightarrow> int \<times> vx_obj" where
  "sieve_vx_emit probab_prime is_large_limit yvx x5 x7 x st =
     (case st of (gap, obj) \<Rightarrow>
        (case vx_emit_candidate probab_prime is_large_limit (bitmap_get_bit x5 x)
                (iZ_gmp (yvx + int x) (- 1)) (gap + 4, obj) of
           (gap1, obj1) \<Rightarrow>
             vx_emit_candidate probab_prime is_large_limit (bitmap_get_bit x7 x)
               (iZ_gmp (yvx + int x) 1) (gap1 + 2, obj1)))"

text \<open>
  \<open>sieve_vx(vx_obj, vx_assets)\<close>. The segment size is the positive \<open>int\<close> of the gap
  list; \<open>y\<close> is the number its string denotes. \<open>mpz_sqrt\<close> is the integer square root.
  A \<open>NULL\<close> list of root primes is dereferenced by the loop header, which is the result
  \<open>None\<close>. \<open>vx_resize_p_gaps\<close> changes the capacity only.
\<close>

definition sieve_vx :: "(int \<Rightarrow> int \<Rightarrow> bool) \<Rightarrow> vx_obj \<Rightarrow> vx_assets \<Rightarrow> vx_obj option" where
  "sieve_vx probab_prime obj assets =
     (let x5 = bitmap_clone (base_x5 assets);
          x7 = bitmap_clone (base_x7 assets);
          v = nat (obj_vx obj);
          yy = int (obj_y obj);
          yvx = yy * int v;
          root_limit = isqrt (nat (iZ_gmp (yvx + int v) 1));
          is_large_limit = (root_limit > v)
      in case root_primes assets of
           None \<Rightarrow> None
         | Some roots \<Rightarrow>
             (case sieve_vx_roots v yy root_limit is_large_limit
                     (drop 2 (take (p_count roots) (p_array roots))) (x5, x7, bit_ops obj) of
                None \<Rightarrow> None
              | Some (x5', x7', ops) \<Rightarrow>
                  Some (snd (fold (sieve_vx_emit probab_prime is_large_limit yvx x5' x7')
                               [1..<v + 1] (0, obj\<lparr>bit_ops := ops\<rparr>)))))"

section \<open>Correctness of the classic Sieve-iZ\<close>

text \<open>
  The index arithmetic of the Xp wheel. \<open>hits p s i\<close> says that the stride loop of
  \<open>bitmap_clear_mod_p\<close> from \<open>s\<close> with step \<open>p\<close> reaches the index \<open>i\<close>. \<open>V5 i v\<close>
  and \<open>V7 i v\<close> say that \<open>v\<close> is the number the bit \<open>i\<close> of \<open>x5\<close>, respectively
  \<open>x7\<close>, stands for: \<open>v = 6i - 1\<close> and \<open>v = 6i + 1\<close>. For a prime \<open>p = 6x - 1\<close>
  ("minus") or \<open>p = 6x + 1\<close> ("plus") the strides started at \<open>p * x + x\<close> and
  \<open>p * x - x\<close> reach multiples of \<open>p\<close> only, and reach every multiple \<open>p * m\<close> with
  \<open>m \<ge> p\<close>.
\<close>

definition hits :: "nat \<Rightarrow> nat \<Rightarrow> nat \<Rightarrow> bool" where
  "hits p s i = (s \<le> i \<and> (i - s) mod p = 0)"

lemma hitsE: "hits p s i \<Longrightarrow> \<exists>j. i = s + j * p"
proof -
  assume h: "hits p s i"
  then have "p dvd (i - s)" by (auto simp add: hits_def)
  then obtain j where "i - s = p * j" by (auto simp add: dvd_def)
  with h have "i = s + j * p" by (simp add: hits_def mult.commute)
  then show ?thesis by blast
qed

lemma hitsI: "i = s + j * p \<Longrightarrow> hits p s i"
  by (simp add: hits_def)

definition V5 :: "nat \<Rightarrow> nat \<Rightarrow> bool" where
  "V5 i v = (6 * i = v + 1)"

definition V7 :: "nat \<Rightarrow> nat \<Rightarrow> bool" where
  "V7 i v = (v = 6 * i + 1)"

lemma hit_sound_minus_x5:
  assumes "p + 1 = 6 * x" and "hits p (p * x + x) i"
  shows "\<exists>m. 2 \<le> m \<and> V5 i (p * m)"
proof -
  from hitsE [OF assms(2)] obtain j where j: "i = p * x + x + j * p" by blast
  have "6 * i = p * (6 * (x + j) + 1) + 1"
    using assms(1) j by (simp add: algebra_simps)
  then have "V5 i (p * (6 * (x + j) + 1))" by (simp add: V5_def)
  moreover have "2 \<le> 6 * (x + j) + 1" using assms(1) by arith
  ultimately show ?thesis by blast
qed

lemma hit_sound_minus_x7:
  assumes "p + 1 = 6 * x" and "hits p (p * x - x) i"
  shows "\<exists>m. 2 \<le> m \<and> V7 i (p * m)"
proof -
  from hitsE [OF assms(2)] obtain j where j: "i = p * x - x + j * p" by blast
  have x1: "1 \<le> x" using assms(1) by arith
  have px: "x \<le> p * x" using assms(1) x1 by (cases p) auto
  have m: "p \<le> 6 * (x + j)" using assms(1) by arith
  have "6 * i + x * 6 = 6 * (p * x) + 6 * (j * p)" using j px by linarith
  then have "6 * i + 1 + p = p * (6 * (x + j))"
    using assms(1) by (simp add: algebra_simps)
  then have "6 * i + 1 = p * (6 * (x + j)) - p" by arith
  also have "\<dots> = p * (6 * (x + j) - 1)" by (simp add: diff_mult_distrib2)
  finally have "V7 i (p * (6 * (x + j) - 1))" by (simp add: V7_def)
  moreover have "2 \<le> 6 * (x + j) - 1" using x1 by arith
  ultimately show ?thesis by blast
qed

lemma hit_sound_plus_x5:
  assumes "p = 6 * x + 1" and "1 \<le> x" and "hits p (p * x - x) i"
  shows "\<exists>m. 2 \<le> m \<and> V5 i (p * m)"
proof -
  from hitsE [OF assms(3)] obtain j where j: "i = p * x - x + j * p" by blast
  have px: "x \<le> p * x" using assms(1) by simp
  have "6 * i + x * 6 = 6 * (p * x) + 6 * (j * p)" using j px by linarith
  then have "6 * i + p = p * (6 * (x + j)) + 1"
    using assms(1) by (simp add: algebra_simps)
  moreover have "p \<le> p * (6 * (x + j))" using assms(2) by simp
  ultimately have "6 * i = p * (6 * (x + j)) - p + 1" by arith
  also have "\<dots> = p * (6 * (x + j) - 1) + 1" by (simp add: diff_mult_distrib2)
  finally have "V5 i (p * (6 * (x + j) - 1))" by (simp add: V5_def)
  moreover have "2 \<le> 6 * (x + j) - 1" using assms(2) by arith
  ultimately show ?thesis by blast
qed

lemma hit_sound_plus_x7:
  assumes "p = 6 * x + 1" and "1 \<le> x" and "hits p (p * x + x) i"
  shows "\<exists>m. 2 \<le> m \<and> V7 i (p * m)"
proof -
  from hitsE [OF assms(3)] obtain j where j: "i = p * x + x + j * p" by blast
  have "6 * i + 1 = p * (6 * (x + j) + 1)"
    using assms(1) j by (simp add: algebra_simps)
  then have "V7 i (p * (6 * (x + j) + 1))" by (simp add: V7_def)
  moreover have "2 \<le> 6 * (x + j) + 1" using assms(2) by arith
  ultimately show ?thesis by blast
qed


lemma cofactor_mod6_plus:
  fixes w m z i :: nat
  assumes "w + m = 6 * z" and "6 * i = w + 1"
  shows "\<exists>y. m = 6 * y + 1"
  using assms by presburger

lemma hit_complete_minus_x5:
  assumes "p + 1 = 6 * x" and "V5 i (p * m)" and "p \<le> m"
  shows "hits p (p * x + x) i"
proof -
  have "(p + 1) * m = (6 * x) * m" using assms(1) by simp
  then have "p * m + m = 6 * (x * m)" by (simp add: algebra_simps)
  moreover have "6 * i = p * m + 1" using assms(2) by (simp add: V5_def)
  ultimately have "\<exists>y. m = 6 * y + 1" by (rule cofactor_mod6_plus)
  then obtain y where y: "m = 6 * y + 1" by blast
  have xy: "x \<le> y" using assms(1,3) y by arith
  then obtain j where j: "y = x + j" using le_Suc_ex by blast
  have "6 * i = p * (6 * y + 1) + 1" using assms(2) y by (simp add: V5_def)
  also have "\<dots> = 6 * (p * y) + (p + 1)" by (simp add: algebra_simps)
  also have "\<dots> = 6 * (p * y + x)" using assms(1) by simp
  finally have "i = p * y + x" by simp
  then have "i = p * x + x + j * p" using j by (simp add: algebra_simps)
  then show ?thesis by (rule hitsI)
qed


lemma cofactor_mod6_minus:
  fixes w m z i :: nat
  assumes "w + m = 6 * z" and "w = 6 * i + 1"
  shows "\<exists>y. m + 1 = 6 * y"
  using assms by presburger

lemma cofactor_mod6_minus':
  fixes w m z i :: nat
  assumes "w = 6 * z + m" and "6 * i = w + 1"
  shows "\<exists>y. m + 1 = 6 * y"
  using assms by presburger

lemma cofactor_mod6_plus':
  fixes w m z i :: nat
  assumes "w = 6 * z + m" and "w = 6 * i + 1"
  shows "\<exists>y. m = 6 * y + 1"
  using assms by presburger

lemma hit_complete_minus_x7:
  assumes "p + 1 = 6 * x" and "V7 i (p * m)" and "p \<le> m"
  shows "hits p (p * x - x) i"
proof -
  have "(p + 1) * m = (6 * x) * m" using assms(1) by simp
  then have "p * m + m = 6 * (x * m)" by (simp add: algebra_simps)
  moreover have "p * m = 6 * i + 1" using assms(2) by (simp add: V7_def)
  ultimately have "\<exists>y. m + 1 = 6 * y" by (rule cofactor_mod6_minus)
  then obtain y where y: "m + 1 = 6 * y" by blast
  have xy: "x \<le> y" using assms(1,3) y by arith
  then obtain j where j: "y = x + j" using le_Suc_ex by blast
  have "p * (m + 1) = p * (6 * y)" using y by simp
  then have "p * m + p = 6 * (p * y)" by (simp add: algebra_simps)
  then have "6 * i + (p + 1) = 6 * (p * y)" using assms(2) by (simp add: V7_def)
  then have "6 * (i + x) = 6 * (p * y)" using assms(1) by simp
  then have "i + x = p * x + j * p" using j by (simp add: algebra_simps)
  moreover have "x \<le> p * x" using assms(1) by (cases p) auto
  ultimately have "i = p * x - x + j * p" by linarith
  then show ?thesis by (rule hitsI)
qed

lemma hit_complete_plus_x5:
  assumes "p = 6 * x + 1" and "V5 i (p * m)" and "p \<le> m"
  shows "hits p (p * x - x) i"
proof -
  have "p * m = (6 * x + 1) * m" using assms(1) by simp
  then have "p * m = 6 * (x * m) + m" by (simp add: algebra_simps)
  moreover have "6 * i = p * m + 1" using assms(2) by (simp add: V5_def)
  ultimately have "\<exists>y. m + 1 = 6 * y" by (rule cofactor_mod6_minus')
  then obtain y where y: "m + 1 = 6 * y" by blast
  have xy: "x \<le> y" using assms(1,3) y by arith
  then obtain j where j: "y = x + j" using le_Suc_ex by blast
  have "p * (m + 1) = p * (6 * y)" using y by simp
  then have "p * m + p = 6 * (p * y)" by (simp add: algebra_simps)
  then have "6 * i + p = 6 * (p * y) + 1" using assms(2) by (simp add: V5_def)
  then have "6 * (i + x) = 6 * (p * y)" using assms(1) by simp
  then have "i + x = p * x + j * p" using j by (simp add: algebra_simps)
  moreover have "x \<le> p * x" using assms(1) by (cases p) auto
  ultimately have "i = p * x - x + j * p" by linarith
  then show ?thesis by (rule hitsI)
qed

lemma hit_complete_plus_x7:
  assumes "p = 6 * x + 1" and "V7 i (p * m)" and "p \<le> m"
  shows "hits p (p * x + x) i"
proof -
  have "p * m = (6 * x + 1) * m" using assms(1) by simp
  then have "p * m = 6 * (x * m) + m" by (simp add: algebra_simps)
  moreover have "p * m = 6 * i + 1" using assms(2) by (simp add: V7_def)
  ultimately have "\<exists>y. m = 6 * y + 1" by (rule cofactor_mod6_plus')
  then obtain y where y: "m = 6 * y + 1" by blast
  have xy: "x \<le> y" using assms(1,3) y by arith
  then obtain j where j: "y = x + j" using le_Suc_ex by blast
  have "6 * i + 1 = p * (6 * y + 1)" using assms(2) y by (simp add: V7_def)
  also have "\<dots> = 6 * (p * y) + p" by (simp add: algebra_simps)
  also have "\<dots> = 6 * (p * y + x) + 1" using assms(1) by simp
  finally have "i = p * y + x" by simp
  then have "i = p * x + x + j * p" using j by (simp add: algebra_simps)
  then show ?thesis by (rule hitsI)
qed


lemma V5_fun: "V5 i v \<Longrightarrow> V5 i v' \<Longrightarrow> v = v'"
  by (simp add: V5_def)

lemma V7_fun: "V7 i v \<Longrightarrow> V7 i v' \<Longrightarrow> v = v'"
  by (simp add: V7_def)

lemma V5_mod6: "V5 i v \<Longrightarrow> v mod 6 = 1 \<or> v mod 6 = 5"
  unfolding V5_def by presburger

lemma V7_mod6: "V7 i v \<Longrightarrow> v mod 6 = 1 \<or> v mod 6 = 5"
  unfolding V7_def by presburger

definition marks_sound :: "(nat \<Rightarrow> nat \<Rightarrow> bool) \<Rightarrow> bitmap \<Rightarrow> bool" where
  "marks_sound V bm =
     (\<forall>i < length bm. \<not> bitmap_get_bit bm i \<longrightarrow> (\<exists>q m. 5 \<le> q \<and> 2 \<le> m \<and> V i (q * m)))"

definition marks_complete :: "(nat \<Rightarrow> nat \<Rightarrow> bool) \<Rightarrow> nat \<Rightarrow> nat \<Rightarrow> nat \<Rightarrow> bitmap \<Rightarrow> bool" where
  "marks_complete V c r lim bm =
     (\<forall>i q m. i < lim \<and> prime_nat q \<and> q \<le> c \<and> q < r \<and> q \<le> m \<and> V i (q * m)
        \<longrightarrow> \<not> bitmap_get_bit bm i)"

lemma get_clear_mod_p_hits:
  "0 < p \<Longrightarrow> bitmap_get_bit (bitmap_clear_mod_p bm p s lim) i =
     (bitmap_get_bit bm i \<and> \<not> (hits p s i \<and> i < lim))"
  by (auto simp add: get_bitmap_clear_mod_p hits_def)

lemma marks_sound_all_set: "marks_sound V (bitmap_set_all bm)"
  by (simp add: marks_sound_def)

lemma marks_sound_clear:
  assumes "marks_sound V bm" and "5 \<le> p"
    and "\<And>i. hits p s i \<Longrightarrow> \<exists>m. 2 \<le> m \<and> V i (p * m)"
  shows "marks_sound V (bitmap_clear_mod_p bm p s lim)"
  unfolding marks_sound_def
proof (intro allI impI)
  fix i
  assume i: "i < length (bitmap_clear_mod_p bm p s lim)"
    and n: "\<not> bitmap_get_bit (bitmap_clear_mod_p bm p s lim) i"
  have p0: "0 < p" using assms(2) by simp
  from n have "\<not> bitmap_get_bit bm i \<or> hits p s i"
    by (auto simp add: get_clear_mod_p_hits [OF p0])
  then show "\<exists>q m. 5 \<le> q \<and> 2 \<le> m \<and> V i (q * m)"
  proof
    assume "\<not> bitmap_get_bit bm i"
    with assms(1) i show ?thesis by (simp add: marks_sound_def)
  next
    assume "hits p s i"
    from assms(3) [OF this] assms(2) show ?thesis by blast
  qed
qed

lemma marks_complete_clear_other:
  assumes "marks_complete V c r lim bm" and "0 < p"
  shows "marks_complete V c r lim (bitmap_clear_mod_p bm p s lim')"
  using assms unfolding marks_complete_def
  by (auto simp add: get_clear_mod_p_hits)

lemma marks_complete_clear:
  assumes "marks_complete V c r lim bm" and "0 < p"
    and "\<And>q. prime_nat q \<Longrightarrow> c < q \<Longrightarrow> q \<le> p \<Longrightarrow> q = p"
    and "\<And>i m. p \<le> m \<Longrightarrow> V i (p * m) \<Longrightarrow> hits p s i"
  shows "marks_complete V p r lim (bitmap_clear_mod_p bm p s lim)"
  unfolding marks_complete_def
proof (intro allI impI)
  fix i q m
  assume a: "i < lim \<and> prime_nat q \<and> q \<le> p \<and> q < r \<and> q \<le> m \<and> V i (q * m)"
  show "\<not> bitmap_get_bit (bitmap_clear_mod_p bm p s lim) i"
  proof (cases "q \<le> c")
    case True
    with a assms(1) have "\<not> bitmap_get_bit bm i"
      unfolding marks_complete_def by blast
    then show ?thesis by (simp add: get_clear_mod_p_hits [OF assms(2)])
  next
    case False
    with a assms(3) have "q = p" by simp
    with a assms(4) have "hits p s i" by blast
    with a show ?thesis by (simp add: get_clear_mod_p_hits [OF assms(2)])
  qed
qed

lemma marks_complete_mono:
  assumes "marks_complete V c r lim bm"
    and "\<And>q. prime_nat q \<Longrightarrow> c < q \<Longrightarrow> q \<le> c' \<Longrightarrow> r \<le> q"
  shows "marks_complete V c' r lim bm"
  unfolding marks_complete_def
proof (intro allI impI)
  fix i q m
  assume a: "i < lim \<and> prime_nat q \<and> q \<le> c' \<and> q < r \<and> q \<le> m \<and> V i (q * m)"
  have "q \<le> c"
  proof (rule ccontr)
    assume "\<not> q \<le> c"
    with a assms(2) [of q] show False by simp
  qed
  with a assms(1) show "\<not> bitmap_get_bit bm i"
    unfolding marks_complete_def by blast
qed

lemma bit_iff_prime:
  assumes s: "marks_sound V bm" and c: "marks_complete V c r lim bm"
    and k: "k < lim" "k < length bm" and v: "V k v" "1 < v" "v \<le> c + 1"
    and vfun: "\<And>v'. V k v' \<Longrightarrow> v' = v"
    and root: "\<And>q. q * q \<le> v \<Longrightarrow> q < r"
  shows "bitmap_get_bit bm k = prime_nat v"
proof
  assume b: "bitmap_get_bit bm k"
  show "prime_nat v"
  proof (rule ccontr)
    assume "\<not> prime_nat v"
    from composite_small_factor [OF v(2) this]
    obtain q m where q: "prime_nat q" "v = q * m" "q \<le> m" by blast
    have "q * q \<le> v" using q(2,3) by simp
    then have "q < r" by (rule root)
    have "2 \<le> q" using q(1) by (rule prime_nat_ge_2)
    then have "q * 2 \<le> v" using q(2,3) by simp
    then have "q \<le> c" using v(3) \<open>2 \<le> q\<close> by linarith
    with c k(1) q \<open>q < r\<close> v(1) have "\<not> bitmap_get_bit bm k"
      unfolding marks_complete_def by blast
    with b show False by simp
  qed
next
  assume p: "prime_nat v"
  show "bitmap_get_bit bm k"
  proof (rule ccontr)
    assume "\<not> bitmap_get_bit bm k"
    with s k(2) obtain q m where qm: "5 \<le> q" "2 \<le> m" "V k (q * m)"
      unfolding marks_sound_def by blast
    from vfun [OF qm(3)] have "v = q * m" by simp
    moreover have "\<not> prime_nat (q * m)" using qm(1,2) by (intro prime_nat_product) simp_all
    ultimately show False using p by simp
  qed
qed


definition primes_inv :: "nat \<Rightarrow> nat \<Rightarrow> primes_obj \<Rightarrow> bool" where
  "primes_inv n c ps =
     (p_count ps = length (p_array ps) \<and> sorted_wrt (<) (p_array ps)
      \<and> (\<forall>p \<in> set (p_array ps). p \<le> c)
      \<and> (\<forall>p. p \<le> n \<longrightarrow> (p \<in> set (p_array ps)) = (prime_nat p \<and> p \<le> c)))"

lemma primes_inv_append:
  assumes "primes_inv n c ps" and "c < v"
    and "\<And>q. c < q \<Longrightarrow> q < v \<Longrightarrow> q \<le> n \<Longrightarrow> \<not> prime_nat q"
    and "v \<le> n \<Longrightarrow> prime_nat v"
  shows "primes_inv n v (primes_obj_append ps v)"
proof -
  have len: "p_count ps = length (p_array ps)" and srt: "sorted_wrt (<) (p_array ps)"
    and bnd: "\<forall>p \<in> set (p_array ps). p \<le> c"
    and mem: "\<forall>p. p \<le> n \<longrightarrow> (p \<in> set (p_array ps)) = (prime_nat p \<and> p \<le> c)"
    using assms(1) by (simp_all add: primes_inv_def)
  have arr: "p_array (primes_obj_append ps v) = p_array ps @ [v]"
    and cnt: "p_count (primes_obj_append ps v) = length (p_array ps) + 1"
    using len by (simp_all add: primes_obj_append_def)
  have 1: "sorted_wrt (<) (p_array ps @ [v])"
    using srt bnd assms(2) by (auto simp add: sorted_wrt_append)
  have 2: "\<forall>p \<in> set (p_array ps @ [v]). p \<le> v"
    using bnd assms(2) by auto
  have 3: "(p \<in> set (p_array ps @ [v])) = (prime_nat p \<and> p \<le> v)" if pn: "p \<le> n" for p
  proof (cases "p = v")
    case True
    with pn assms(4) show ?thesis by simp
  next
    case False
    show ?thesis
    proof (cases "p \<le> c")
      case True
      with mem pn assms(2) False show ?thesis by auto
    next
      case nc: False
      have "p \<notin> set (p_array ps)" using bnd nc by auto
      moreover have "\<not> (prime_nat p \<and> p \<le> v)"
        using assms(3) [of p] nc False pn by auto
      ultimately show ?thesis using False by simp
    qed
  qed
  show ?thesis
    unfolding primes_inv_def arr cnt using 1 2 3 by simp
qed

lemma primes_inv_mono:
  assumes "primes_inv n c ps" and "c \<le> c'"
    and "\<And>q. c < q \<Longrightarrow> q \<le> c' \<Longrightarrow> q \<le> n \<Longrightarrow> \<not> prime_nat q"
  shows "primes_inv n c' ps"
proof -
  have mem: "\<forall>p. p \<le> n \<longrightarrow> (p \<in> set (p_array ps)) = (prime_nat p \<and> p \<le> c)"
    and bnd: "\<forall>p \<in> set (p_array ps). p \<le> c"
    using assms(1) by (simp_all add: primes_inv_def)
  have "(p \<in> set (p_array ps)) = (prime_nat p \<and> p \<le> c')" if pn: "p \<le> n" for p
  proof (cases "p \<le> c")
    case True
    with mem pn assms(2) show ?thesis by auto
  next
    case False
    then have "p \<notin> set (p_array ps)" using bnd by auto
    moreover have "\<not> (prime_nat p \<and> p \<le> c')" using assms(3) [of p] False pn by auto
    ultimately show ?thesis by simp
  qed
  moreover have "\<forall>p \<in> set (p_array ps). p \<le> c'" using bnd assms(2) by auto
  ultimately show ?thesis using assms(1) by (simp add: primes_inv_def)
qed

definition bits_inv :: "nat \<Rightarrow> nat \<Rightarrow> nat \<Rightarrow> bitmap \<Rightarrow> bitmap \<Rightarrow> bool" where
  "bits_inv r lim c x5 x7 =
     (length x5 = lim + 1 \<and> length x7 = lim + 1 \<and> marks_sound V5 x5 \<and> marks_sound V7 x7
      \<and> marks_complete V5 c r lim x5 \<and> marks_complete V7 c r lim x7)"

lemma bits_inv_mono:
  assumes "bits_inv r lim c x5 x7"
    and "\<And>q. prime_nat q \<Longrightarrow> c < q \<Longrightarrow> q \<le> c' \<Longrightarrow> r \<le> q"
  shows "bits_inv r lim c' x5 x7"
  using assms marks_complete_mono [of _ c r lim _ c']
  unfolding bits_inv_def by blast

lemma iZ_minus [simp]: "iZ x (- 1) = 6 * x - 1"
  by (simp add: iZ_def nat_diff_distrib)

lemma iZ_plus [simp]: "iZ x 1 = 6 * x + 1"
  by (simp add: iZ_def nat_add_distrib)

lemma sieve_iZ_x5_inv:
  assumes b: "bits_inv r lim c x5 x7" and pr: "primes_inv n c ps"
    and k: "1 \<le> k" "k < lim" and c: "c + 2 = 6 * k" and kn: "6 * k \<le> n + 1"
    and r1: "\<And>q. q * q \<le> n \<Longrightarrow> q < r"
  shows "\<exists>x5' x7' ps'. sieve_iZ_x5 r lim k (x5, x7, ps) = (x5', x7', ps')
           \<and> bits_inv r lim (c + 1) x5' x7' \<and> primes_inv n (c + 1) ps'"
proof -
  define v where "v = 6 * k - 1"
  have v: "v = c + 1" "v + 1 = 6 * k" "5 \<le> v" "v \<le> n"
    using k c kn unfolding v_def by arith+
  have V: "V5 k v" using v(2) by (simp add: V5_def)
  have len: "length x5 = lim + 1" "length x7 = lim + 1"
    and s5: "marks_sound V5 x5" and s7: "marks_sound V7 x7"
    and c5: "marks_complete V5 c r lim x5" and c7: "marks_complete V7 c r lim x7"
    using b by (simp_all add: bits_inv_def)
  have bit: "bitmap_get_bit x5 k = prime_nat v"
  proof (rule bit_iff_prime [OF s5 c5 k(2) _ V])
    show "k < length x5" using k(2) len by simp
    show "1 < v" using v(3) by simp
    show "v \<le> c + 1" using v(1) by simp
    show "v' = v" if "V5 k v'" for v' using that V by (rule V5_fun)
    show "q < r" if "q * q \<le> v" for q using that v(4) by (intro r1) simp
  qed
  have only: "q = v" if "c < q" "q \<le> v" for q using that v(1) by simp
  have eq: "sieve_iZ_x5 r lim k (x5, x7, ps) =
              (if bitmap_get_bit x5 k
               then (if v < r
                     then (bitmap_clear_mod_p x5 v (v * k + k) lim,
                           bitmap_clear_mod_p x7 v (v * k - k) lim, primes_obj_append ps v)
                     else (x5, x7, primes_obj_append ps v))
               else (x5, x7, ps))"
    by (simp add: sieve_iZ_x5_def Let_def v_def)
  show ?thesis
  proof (cases "bitmap_get_bit x5 k")
    case False
    then have np: "\<not> prime_nat v" using bit by simp
    have "bits_inv r lim (c + 1) x5 x7"
      using b
    proof (rule bits_inv_mono)
      fix q assume "prime_nat q" "c < q" "q \<le> c + 1"
      then have "q = v" using v(1) by simp
      with np \<open>prime_nat q\<close> show "r \<le> q" by simp
    qed
    moreover have "primes_inv n (c + 1) ps"
      using pr
    proof (rule primes_inv_mono)
      show "c \<le> c + 1" by simp
      fix q assume "c < q" "q \<le> c + 1"
      then have "q = v" using v(1) by simp
      with np show "\<not> prime_nat q" by simp
    qed
    ultimately show ?thesis using False by (simp add: eq)
  next
    case True
    then have pv: "prime_nat v" using bit by simp
    have pi: "primes_inv n (c + 1) (primes_obj_append ps v)"
      unfolding v(1) [symmetric] using pr
    proof (rule primes_inv_append)
      show "c < v" using v(1) by simp
      show "\<not> prime_nat q" if "c < q" "q < v" for q using that v(1) by simp
      show "prime_nat v" by (rule pv)
    qed
    show ?thesis
    proof (cases "v < r")
      case False
      have "bits_inv r lim (c + 1) x5 x7"
        using b
      proof (rule bits_inv_mono)
        fix q assume "prime_nat q" "c < q" "q \<le> c + 1"
        then have "q = v" using v(1) by simp
        with False show "r \<le> q" by simp
      qed
      with pi True False show ?thesis by (simp add: eq)
    next
      case root: True
      have v0: "0 < v" using v(3) by simp
      have n5: "marks_sound V5 (bitmap_clear_mod_p x5 v (v * k + k) lim)"
        using s5 v(3) by (rule marks_sound_clear) (rule hit_sound_minus_x5 [OF v(2)])
      have n7: "marks_sound V7 (bitmap_clear_mod_p x7 v (v * k - k) lim)"
        using s7 v(3) by (rule marks_sound_clear) (rule hit_sound_minus_x7 [OF v(2)])
      have m5: "marks_complete V5 (c + 1) r lim (bitmap_clear_mod_p x5 v (v * k + k) lim)"
        unfolding v(1) [symmetric] using c5 v0
      proof (rule marks_complete_clear)
        show "q = v" if "prime_nat q" "c < q" "q \<le> v" for q using that only by simp
        show "hits v (v * k + k) i" if "v \<le> m" "V5 i (v * m)" for i m
          using v(2) that(2,1) by (rule hit_complete_minus_x5)
      qed
      have m7: "marks_complete V7 (c + 1) r lim (bitmap_clear_mod_p x7 v (v * k - k) lim)"
        unfolding v(1) [symmetric] using c7 v0
      proof (rule marks_complete_clear)
        show "q = v" if "prime_nat q" "c < q" "q \<le> v" for q using that only by simp
        show "hits v (v * k - k) i" if "v \<le> m" "V7 i (v * m)" for i m
          using v(2) that(2,1) by (rule hit_complete_minus_x7)
      qed
      have "bits_inv r lim (c + 1) (bitmap_clear_mod_p x5 v (v * k + k) lim)
              (bitmap_clear_mod_p x7 v (v * k - k) lim)"
        using len n5 n7 m5 m7 by (simp add: bits_inv_def)
      with pi True root show ?thesis by (simp add: eq)
    qed
  qed
qed


lemma sieve_iZ_x7_inv:
  assumes b: "bits_inv r lim c x5 x7" and pr: "primes_inv n c ps"
    and k: "1 \<le> k" "k < lim" and c: "c = 6 * k" and kn: "6 * k \<le> n"
    and r1: "\<And>q. q * q \<le> n \<Longrightarrow> q < r" and r2: "r \<le> n + 1"
  shows "\<exists>x5' x7' ps'. sieve_iZ_x7 r lim k (x5, x7, ps) = (x5', x7', ps')
           \<and> bits_inv r lim (c + 1) x5' x7' \<and> primes_inv n (c + 1) ps'"
proof -
  define v where "v = 6 * k + 1"
  have v: "v = c + 1" "v = 6 * k + 1" "5 \<le> v"
    using k c unfolding v_def by arith+
  have V: "V7 k v" using v(2) by (simp add: V7_def)
  have len: "length x5 = lim + 1" "length x7 = lim + 1"
    and s5: "marks_sound V5 x5" and s7: "marks_sound V7 x7"
    and c5: "marks_complete V5 c r lim x5" and c7: "marks_complete V7 c r lim x7"
    using b by (simp_all add: bits_inv_def)
  have bit: "bitmap_get_bit x7 k = prime_nat v" if vn: "v \<le> n"
  proof (rule bit_iff_prime [OF s7 c7 k(2) _ V])
    show "k < length x7" using k(2) len by simp
    show "1 < v" using v(3) by simp
    show "v \<le> c + 1" using v(1) by simp
    show "v' = v" if "V7 k v'" for v' using that V by (rule V7_fun)
    show "q < r" if "q * q \<le> v" for q using that vn by (intro r1) simp
  qed
  have big: "r \<le> v" if "\<not> v \<le> n" using that r2 by simp
  have eq: "sieve_iZ_x7 r lim k (x5, x7, ps) =
              (if bitmap_get_bit x7 k
               then (if v < r
                     then (bitmap_clear_mod_p x5 v (v * k - k) lim,
                           bitmap_clear_mod_p x7 v (v * k + k) lim, primes_obj_append ps v)
                     else (x5, x7, primes_obj_append ps v))
               else (x5, x7, ps))"
    by (simp add: sieve_iZ_x7_def Let_def v_def)
  show ?thesis
  proof (cases "bitmap_get_bit x7 k")
    case False
    then have np: "\<not> prime_nat v" if "v \<le> n" using bit that by simp
    have "bits_inv r lim (c + 1) x5 x7"
      using b
    proof (rule bits_inv_mono)
      fix q assume q: "prime_nat q" "c < q" "q \<le> c + 1"
      then have "q = v" using v(1) by simp
      with np big q(1) show "r \<le> q" by (cases "v \<le> n") simp_all
    qed
    moreover have "primes_inv n (c + 1) ps"
      using pr
    proof (rule primes_inv_mono)
      show "c \<le> c + 1" by simp
      fix q assume "c < q" "q \<le> c + 1" "q \<le> n"
      then have "q = v" "v \<le> n" using v(1) by simp_all
      with np show "\<not> prime_nat q" by simp
    qed
    ultimately show ?thesis using False by (simp add: eq)
  next
    case True
    then have pv: "prime_nat v" if "v \<le> n" using bit that by simp
    have pi: "primes_inv n (c + 1) (primes_obj_append ps v)"
      unfolding v(1) [symmetric] using pr
    proof (rule primes_inv_append)
      show "c < v" using v(1) by simp
      show "\<not> prime_nat q" if "c < q" "q < v" for q using that v(1) by simp
      show "prime_nat v" if "v \<le> n" using that by (rule pv)
    qed
    show ?thesis
    proof (cases "v < r")
      case False
      have "bits_inv r lim (c + 1) x5 x7"
        using b
      proof (rule bits_inv_mono)
        fix q assume "prime_nat q" "c < q" "q \<le> c + 1"
        then have "q = v" using v(1) by simp
        with False show "r \<le> q" by simp
      qed
      with pi True False show ?thesis by (simp add: eq)
    next
      case root: True
      have v0: "0 < v" using v(3) by simp
      have n5: "marks_sound V5 (bitmap_clear_mod_p x5 v (v * k - k) lim)"
        using s5 v(3) by (rule marks_sound_clear) (rule hit_sound_plus_x5 [OF v(2) k(1)])
      have n7: "marks_sound V7 (bitmap_clear_mod_p x7 v (v * k + k) lim)"
        using s7 v(3) by (rule marks_sound_clear) (rule hit_sound_plus_x7 [OF v(2) k(1)])
      have m5: "marks_complete V5 (c + 1) r lim (bitmap_clear_mod_p x5 v (v * k - k) lim)"
        unfolding v(1) [symmetric] using c5 v0
      proof (rule marks_complete_clear)
        show "q = v" if "prime_nat q" "c < q" "q \<le> v" for q using that v(1) by simp
        show "hits v (v * k - k) i" if "v \<le> m" "V5 i (v * m)" for i m
          using v(2) that(2,1) by (rule hit_complete_plus_x5)
      qed
      have m7: "marks_complete V7 (c + 1) r lim (bitmap_clear_mod_p x7 v (v * k + k) lim)"
        unfolding v(1) [symmetric] using c7 v0
      proof (rule marks_complete_clear)
        show "q = v" if "prime_nat q" "c < q" "q \<le> v" for q using that v(1) by simp
        show "hits v (v * k + k) i" if "v \<le> m" "V7 i (v * m)" for i m
          using v(2) that(2,1) by (rule hit_complete_plus_x7)
      qed
      have "bits_inv r lim (c + 1) (bitmap_clear_mod_p x5 v (v * k - k) lim)
              (bitmap_clear_mod_p x7 v (v * k + k) lim)"
        using len n5 n7 m5 m7 by (simp add: bits_inv_def)
      with pi True root show ?thesis by (simp add: eq)
    qed
  qed
qed

lemma no_prime_6k:
  assumes "1 \<le> k" shows "\<not> prime_nat (6 * k)"
proof -
  have e: "6 * k = 2 * (3 * k)" by arith
  show ?thesis unfolding e using assms by (intro prime_nat_product) arith+
qed

lemma no_prime_6k_2:
  assumes "1 \<le> k" shows "\<not> prime_nat (6 * k + 2)"
proof -
  have e: "6 * k + 2 = 2 * (3 * k + 1)" by arith
  show ?thesis unfolding e using assms by (intro prime_nat_product) arith+
qed

lemma no_prime_6k_3:
  assumes "1 \<le> k" shows "\<not> prime_nat (6 * k + 3)"
proof -
  have e: "6 * k + 3 = 3 * (2 * k + 1)" by arith
  show ?thesis unfolding e using assms by (intro prime_nat_product) arith+
qed

lemma no_prime_6k_4: "\<not> prime_nat (6 * k + 4)"
proof -
  have e: "6 * k + 4 = 2 * (3 * k + 2)" by arith
  show ?thesis unfolding e by (intro prime_nat_product) arith+
qed


lemma no_prime_4: "\<not> prime_nat 4"
  using prime_nat_product [of 2 2] by simp

definition stage_bound :: "nat \<Rightarrow> nat" where
  "stage_bound k = (if k \<le> 1 then 3 else 6 * k - 5)"

lemma marks_complete_start:
  assumes "\<And>i v. V i v \<Longrightarrow> v mod 6 = 1 \<or> v mod 6 = 5" and "c \<le> 4"
  shows "marks_complete V c r lim bm"
  unfolding marks_complete_def
proof (intro allI impI)
  fix i q m
  assume a: "i < lim \<and> prime_nat q \<and> q \<le> c \<and> q < r \<and> q \<le> m \<and> V i (q * m)"
  then have "(q * m) mod 6 = 1 \<or> (q * m) mod 6 = 5" using assms(1) by blast
  with a have "5 \<le> q" by (intro candidate_factor_ge_5 [of q "q * m"]) simp_all
  with a assms(2) show "\<not> bitmap_get_bit bm i" by simp
qed

lemma sieve_iZ_step_inv:
  assumes b: "bits_inv r lim (stage_bound k) x5 x7" and pr: "primes_inv n (stage_bound k) ps"
    and k: "1 \<le> k" "k < lim" and lim: "lim = n div 6 + 1"
    and r1: "\<And>q. q * q \<le> n \<Longrightarrow> q < r" and r2: "r \<le> n + 1"
  shows "\<exists>x5' x7' ps'. sieve_iZ_step r lim k (x5, x7, ps) = (x5', x7', ps')
           \<and> bits_inv r lim (stage_bound (k + 1)) x5' x7'
           \<and> primes_inv n (stage_bound (k + 1)) ps'"
proof -
  have kn: "6 * k \<le> n" using k(2) lim by arith
  have gap: "\<not> prime_nat q" if "stage_bound k < q" "q \<le> 6 * k - 2" for q
  proof (cases "k = 1")
    case True
    with that have "q = 4" by (simp add: stage_bound_def)
    then show ?thesis using no_prime_4 by simp
  next
    case False
    with k(1) obtain j where j: "k = j + 1" "1 \<le> j" by (cases k) auto
    with that have "q = 6 * j + 2 \<or> q = 6 * j + 3 \<or> q = 6 * j + 4"
      by (simp add: stage_bound_def) arith
    then show ?thesis using no_prime_6k_2 [OF j(2)] no_prime_6k_3 [OF j(2)] no_prime_6k_4 [of j]
      by auto
  qed
  have le: "stage_bound k \<le> 6 * k - 2" using k(1) unfolding stage_bound_def by (auto split: if_splits)
  have b0: "bits_inv r lim (6 * k - 2) x5 x7"
    using b by (rule bits_inv_mono) (use gap in blast)
  have p0: "primes_inv n (6 * k - 2) ps"
    using pr le by (rule primes_inv_mono) (use gap in blast)
  have c0: "6 * k - 2 + 2 = 6 * k" using k(1) by arith
  from sieve_iZ_x5_inv [OF b0 p0 k c0 _ r1] kn
  obtain y5 y7 qs where h: "sieve_iZ_x5 r lim k (x5, x7, ps) = (y5, y7, qs)"
    "bits_inv r lim (6 * k - 2 + 1) y5 y7" "primes_inv n (6 * k - 2 + 1) qs"
    by auto
  have b1: "bits_inv r lim (6 * k) y5 y7"
    using h(2)
  proof (rule bits_inv_mono)
    fix q assume q: "prime_nat q" "6 * k - 2 + 1 < q" "q \<le> 6 * k"
    then have "q = 6 * k" using k(1) by arith
    with q(1) no_prime_6k [OF k(1)] show "r \<le> q" by simp
  qed
  have p1: "primes_inv n (6 * k) qs"
    using h(3)
  proof (rule primes_inv_mono)
    show "6 * k - 2 + 1 \<le> 6 * k" using k(1) by arith
    fix q assume "6 * k - 2 + 1 < q" "q \<le> 6 * k"
    then have "q = 6 * k" using k(1) by arith
    with no_prime_6k [OF k(1)] show "\<not> prime_nat q" by simp
  qed
  from sieve_iZ_x7_inv [OF b1 p1 k refl kn r1 r2]
  obtain z5 z7 rs where g: "sieve_iZ_x7 r lim k (y5, y7, qs) = (z5, z7, rs)"
    "bits_inv r lim (6 * k + 1) z5 z7" "primes_inv n (6 * k + 1) rs"
    by auto
  have sb: "stage_bound (k + 1) = 6 * k + 1" using k(1) by (simp add: stage_bound_def)
  show ?thesis
    unfolding sb using h(1) g by (simp add: sieve_iZ_step_def)
qed


lemma not_prime_nat_0_1: "\<not> prime_nat 0" "\<not> prime_nat 1"
  by (simp_all add: prime_nat_def)

lemma primes_inv_start:
  "primes_inv n 3 (primes_obj_append (primes_obj_append primes_obj_empty 2) 3)"
proof -
  have "(p = 2 \<or> p = 3) = (prime_nat p \<and> p \<le> 3)" for p
  proof (cases "p = 2 \<or> p = 3")
    case True
    then show ?thesis using prime_nat_2 prime_nat_3 by auto
  next
    case False
    then have "p \<le> 3 \<Longrightarrow> p = 0 \<or> p = 1" by arith
    with False show ?thesis using not_prime_nat_0_1 by auto
  qed
  then show ?thesis
    by (simp add: primes_inv_def primes_obj_append_def primes_obj_empty_def insert_commute)
qed

lemma bits_inv_start:
  "bits_inv r lim 3 (bitmap_set_all (bitmap_create (lim + 1)))
     (bitmap_set_all (bitmap_create (lim + 1)))"
  unfolding bits_inv_def
  using marks_complete_start [of V5 3, OF V5_mod6] marks_complete_start [of V7 3, OF V7_mod6]
  by (simp add: marks_sound_all_set)

lemma sieve_iZ_fold_inv:
  assumes lim: "lim = n div 6 + 1"
    and r1: "\<And>q. q * q \<le> n \<Longrightarrow> q < r" and r2: "r \<le> n + 1"
    and k: "1 \<le> k" "k \<le> lim"
  shows "\<exists>x5 x7 ps.
           fold (sieve_iZ_step r lim) [1..<k]
             (bitmap_set_all (bitmap_create (lim + 1)), bitmap_set_all (bitmap_create (lim + 1)),
              primes_obj_append (primes_obj_append primes_obj_empty 2) 3) = (x5, x7, ps)
           \<and> bits_inv r lim (stage_bound k) x5 x7 \<and> primes_inv n (stage_bound k) ps"
  using k
proof (induction k rule: nat_induct_at_least)
  case base
  show ?case
    using bits_inv_start [of r lim] primes_inv_start [of n] by (simp add: stage_bound_def)
next
  case (Suc k)
  then obtain x5 x7 ps where h:
    "fold (sieve_iZ_step r lim) [1..<k]
       (bitmap_set_all (bitmap_create (lim + 1)), bitmap_set_all (bitmap_create (lim + 1)),
        primes_obj_append (primes_obj_append primes_obj_empty 2) 3) = (x5, x7, ps)"
    "bits_inv r lim (stage_bound k) x5 x7" "primes_inv n (stage_bound k) ps"
    by auto
  have kl: "k < lim" using Suc.prems by simp
  from sieve_iZ_step_inv [OF h(2,3) Suc.hyps kl lim r1 r2]
  obtain y5 y7 qs where g: "sieve_iZ_step r lim k (x5, x7, ps) = (y5, y7, qs)"
    "bits_inv r lim (stage_bound (k + 1)) y5 y7" "primes_inv n (stage_bound (k + 1)) qs"
    by auto
  show ?case using Suc.hyps h(1) g by simp
qed

lemma sorted_wrt_butlast_less:
  assumes "sorted_wrt (<) xs" and "xs \<noteq> []"
  shows "\<forall>x \<in> set (butlast xs). x < last xs"
proof -
  have "sorted_wrt (<) (butlast xs @ [last xs])" using assms by simp
  then show ?thesis unfolding sorted_wrt_append by simp
qed

lemma drop_overshoot_set:
  assumes pi: "primes_inv n c ps" and c: "c \<le> n + 1" and ne: "p_array ps \<noteq> []"
  shows "p_count (drop_overshoot n ps) = length (p_array (drop_overshoot n ps))"
    and "sorted_wrt (<) (p_array (drop_overshoot n ps))"
    and "set (p_array (drop_overshoot n ps)) = {p \<in> set (p_array ps). p \<le> n}"
proof -
  have len: "p_count ps = length (p_array ps)" and srt: "sorted_wrt (<) (p_array ps)"
    and bnd: "\<forall>p \<in> set (p_array ps). p \<le> c"
    using pi by (simp_all add: primes_inv_def)
  have lst: "p_array ps ! (p_count ps - 1) = last (p_array ps)"
    using len ne by (simp add: last_conv_nth)
  show "p_count (drop_overshoot n ps) = length (p_array (drop_overshoot n ps))"
    using len by (simp add: drop_overshoot_def primes_obj_resize_to_p_count_def)
  show "sorted_wrt (<) (p_array (drop_overshoot n ps))"
    using len srt
    by (simp add: drop_overshoot_def primes_obj_resize_to_p_count_def sorted_wrt_take)
  show "set (p_array (drop_overshoot n ps)) = {p \<in> set (p_array ps). p \<le> n}"
  proof (cases "last (p_array ps) > n")
    case True
    have arr: "p_array (drop_overshoot n ps) = butlast (p_array ps)"
      using True lst len by (simp add: drop_overshoot_def primes_obj_resize_to_p_count_def butlast_conv_take)
    have "last (p_array ps) \<le> n + 1" using bnd c ne last_in_set [OF ne] by fastforce
    with sorted_wrt_butlast_less [OF srt ne] have small: "\<forall>x \<in> set (butlast (p_array ps)). x \<le> n"
      by fastforce
    have "set (p_array ps) = insert (last (p_array ps)) (set (butlast (p_array ps)))"
      using ne by (metis append_butlast_last_id list.simps(15) rotate1.simps(2) set_rotate1)
    with small True show ?thesis unfolding arr by auto
  next
    case False
    have arr: "p_array (drop_overshoot n ps) = p_array ps"
      using False lst len by (simp add: drop_overshoot_def primes_obj_resize_to_p_count_def)
    have "\<forall>x \<in> set (butlast (p_array ps)). x \<le> n"
      using sorted_wrt_butlast_less [OF srt ne] False by fastforce
    moreover have "set (p_array ps) = insert (last (p_array ps)) (set (butlast (p_array ps)))"
      using ne by (metis append_butlast_last_id list.simps(15) rotate1.simps(2) set_rotate1)
    ultimately show ?thesis unfolding arr using False by auto
  qed
qed


lemma isqrt_le_self: "isqrt n \<le> n"
proof -
  have "isqrt n * isqrt n \<le> n" using isqrt_spec [of n] by simp
  moreover have "isqrt n \<le> isqrt n * isqrt n" by (cases "isqrt n") simp_all
  ultimately show ?thesis by (rule order_trans [rotated])
qed

lemma sieve_iZ_primes:
  assumes n: "10 \<le> n"
  shows "\<exists>obj. sieve_iZ n = Some obj
           \<and> p_count obj = length (p_array obj)
           \<and> sorted_wrt (<) (p_array obj)
           \<and> set (p_array obj) = {p. prime_nat p \<and> p \<le> n \<and> p \<le> 6 * (n div 6) + 1}"
proof -
  define lim where "lim = n div 6 + 1"
  define r where "r = isqrt n + 1"
  have r1: "q * q \<le> n \<Longrightarrow> q < r" for q using le_isqrt [of q n] by (simp add: r_def)
  have r2: "r \<le> n + 1" using isqrt_le_self [of n] by (simp add: r_def)
  have l1: "1 \<le> lim" "lim \<le> lim" by (simp_all add: lim_def)
  from sieve_iZ_fold_inv [OF lim_def r1 r2 l1]
  obtain x5 x7 ps where f:
    "fold (sieve_iZ_step r lim) [1..<lim]
       (bitmap_set_all (bitmap_create (lim + 1)), bitmap_set_all (bitmap_create (lim + 1)),
        primes_obj_append (primes_obj_append primes_obj_empty 2) 3) = (x5, x7, ps)"
    and pi: "primes_inv n (stage_bound lim) ps"
    by blast
  have l2: "2 \<le> lim" using n by (simp add: lim_def)
  then have sb: "stage_bound lim = 6 * (n div 6) + 1" by (simp add: stage_bound_def lim_def)
  have c: "stage_bound lim \<le> n + 1" unfolding sb by simp
  have two: "2 \<in> set (p_array ps)"
    using pi n prime_nat_2 unfolding primes_inv_def sb by simp
  then have ne: "p_array ps \<noteq> []" by auto
  have res: "sieve_iZ n = Some (drop_overshoot n ps)"
    using n unfolding sieve_iZ_def Let_def lim_def [symmetric] r_def [symmetric] f by simp
  have mem: "p \<le> n \<Longrightarrow> p \<in> set (p_array ps) \<longleftrightarrow> prime_nat p \<and> p \<le> 6 * (n div 6) + 1" for p
    using pi unfolding primes_inv_def sb by blast
  have "set (p_array (drop_overshoot n ps)) = {p. prime_nat p \<and> p \<le> n \<and> p \<le> 6 * (n div 6) + 1}"
    unfolding drop_overshoot_set(3) [OF pi c ne] using mem by blast
  with drop_overshoot_set(1,2) [OF pi c ne] res show ?thesis by simp
qed

section \<open>The sieves against the classic sieve\<close>

text \<open>
  Claim C1 says that for every \<open>n\<close> in \<open>[10, 10^8]\<close> the lists of \<open>sieve_iZ(n)\<close> and
  \<open>sieve_iZm(n)\<close> equal the list of the classic sieve of Eratosthenes. The loop of
  \<open>sieve_iZ\<close> runs over \<open>x < x_n = n / 6 + 1\<close>, so the largest candidate it looks at is
  \<open>6 * (n / 6) + 1\<close>; for \<open>n = 6k + 5\<close> the candidate \<open>n = iZ(k + 1, -1)\<close> itself is
  never visited. At \<open>n = 11\<close> both iZ sieves return \<open>2, 3, 5, 7\<close> and the classic sieve
  returns \<open>2, 3, 5, 7, 11\<close>.
\<close>

theorem sieve_iZ_misses_n_at_11:
  "map_option p_array (sieve_iZ 11) = Some [2, 3, 5, 7]
   \<and> map_option p_array (sieve_iZm 11) = Some [2, 3, 5, 7]
   \<and> map_option p_array (classic_sieve_eratosthenes 11) = Some [2, 3, 5, 7, 11]"
  by code_simp

section \<open>The last element of the classic Sieve-iZ\<close>

text \<open>
  Claim C6.  For every \<open>n \<ge> 10\<close>, \<open>sieve_iZ n\<close> returns a list, the list is
  not empty, and its last element (the entry at index \<open>p_count - 1\<close>) is at most
  \<open>n\<close> and is a prime number.
\<close>

theorem sieve_iZ_last_le_n_and_prime:
  assumes "10 \<le> n"
  shows "\<exists>obj. sieve_iZ n = Some obj \<and> 0 < p_count obj
           \<and> p_array obj ! (p_count obj - 1) \<le> n
           \<and> prime_nat (p_array obj ! (p_count obj - 1))"
proof -
  from sieve_iZ_primes [OF assms] obtain obj where o: "sieve_iZ n = Some obj"
    "p_count obj = length (p_array obj)"
    "set (p_array obj) = {p. prime_nat p \<and> p \<le> n \<and> p \<le> 6 * (n div 6) + 1}"
    by blast
  have "2 \<in> set (p_array obj)" unfolding o(3) using assms prime_nat_2 by simp
  then have ne: "p_array obj \<noteq> []" by auto
  then have "p_array obj ! (p_count obj - 1) \<in> set (p_array obj)" using o(2) by simp
  then show ?thesis using o ne by auto
qed

theorem sieve_iZ_last_le_n_and_prime_witness:
  "(10::nat) \<le> 30 \<and> (\<exists>obj. sieve_iZ 30 = Some obj \<and> 0 < p_count obj
           \<and> p_array obj ! (p_count obj - 1) \<le> 30
           \<and> prime_nat (p_array obj ! (p_count obj - 1)))"
  using sieve_iZ_last_le_n_and_prime [of 30] by simp

section \<open>The attempt cap of \<open>search_iZprime\<close>\<close>

text \<open>
  The loop of \<open>search_iZprime\<close> tests \<open>attempts < attempts_limit\<close> but never changes
  \<open>attempts\<close>. So whenever the loop returns, it returns with \<open>found\<close> set: the result
  "not found" is never produced.
\<close>

lemma search_attempts_found_aux:
  assumes "search_attempts pp v lim tmp found q attempts = Some r"
  shows "attempts < lim \<longrightarrow> fst r"
proof (rule search_attempts.raw_induct
        [where P = "\<lambda>pp v lim tmp found q attempts r. attempts < lim \<longrightarrow> fst r", OF _ assms],
       goal_cases)
  case (1 sa pp v lim tmp found q attempts r)
  show ?case
  proof (cases "\<not> found \<and> attempts < lim")
    case True
    with 1(2) have "sa pp v lim (tmp + v) (pp (tmp + v) TEST_ROUNDS)
        (if pp (tmp + v) TEST_ROUNDS then tmp + v else q) attempts = Some r"
      by (simp add: Let_def)
    then show ?thesis using 1(1) by blast
  next
    case False
    with 1(2) show ?thesis by auto
  qed
qed

lemma search_iZprime_never_reports_not_found:
  "search_iZprime pp r q p_id v = Some res \<Longrightarrow> fst res"
  using search_attempts_found_aux [of pp v 1000000 _ False q 0 res]
  by (auto simp add: search_iZprime_def split: option.splits)

text \<open>
  And when the test rejects every candidate the loop does not end at all, after
  1,000,000 rounds or any other number.
\<close>

lemma search_attempts_rejecting_aux:
  assumes "search_attempts pp v lim tmp found q attempts = Some r"
  shows "\<not> ((\<forall>n. \<not> pp n TEST_ROUNDS) \<and> \<not> found \<and> attempts < lim)"
proof (rule search_attempts.raw_induct
        [where P = "\<lambda>pp v lim tmp found q attempts r.
                      \<not> ((\<forall>n. \<not> pp n TEST_ROUNDS) \<and> \<not> found \<and> attempts < lim)", OF _ assms],
       goal_cases)
  case (1 sa pp v lim tmp found q attempts r)
  show ?case
  proof
    assume a: "(\<forall>n. \<not> pp n TEST_ROUNDS) \<and> \<not> found \<and> attempts < lim"
    with 1(2) have "sa pp v lim (tmp + v) False q attempts = Some r"
      by (simp add: Let_def)
    then show False using 1(1) a by blast
  qed
qed

lemma search_attempts_rejecting:
  assumes "\<And>n. \<not> pp n TEST_ROUNDS" and "attempts < lim"
  shows "search_attempts pp v lim tmp False q attempts = None"
  using search_attempts_rejecting_aux [of pp v lim tmp False q attempts] assms
  by (cases "search_attempts pp v lim tmp False q attempts") auto

lemma gcd_385: "gcd (385::int) 11 \<noteq> 1" "gcd (385::int) 17 = 1"
  by code_simp+

lemma coprime_search_385: "coprime_search 385 5 = Some 17"
  apply (subst coprime_search.simps)
  apply (simp add: Let_def gcd_385)
  apply (subst coprime_search.simps)
  apply (simp add: Let_def gcd_385)
  done

text \<open>
  Claim C2 says that \<open>search_iZprime\<close> makes at most 1,000,000 rounds and returns 0
  when the cap is exhausted. With \<open>vx = 385\<close>, the draw \<open>1\<close>, \<open>p_id = -1\<close> and a test that
  rejects every candidate, the first loop stops at 17 and the second never returns.
\<close>

theorem search_iZprime_cap_not_enforced:
  "search_iZprime (\<lambda>n reps. False) 1 0 (- 1) 385 = None"
  by (simp add: search_iZprime_def iZ_gmp_def coprime_search_385 search_attempts_rejecting)

section \<open>\<open>iZ_next_prime\<close> against the next prime\<close>

text \<open>
  An exact primality test, the ideal \<open>mpz_probab_prime_p\<close>: it accepts the primes and
  nothing else, whatever the number of rounds.
\<close>

definition exact_prime_test :: "int \<Rightarrow> int \<Rightarrow> bool" where
  "exact_prime_test n reps = (1 < n \<and> list_all (\<lambda>d. \<not> d dvd n) [2..n - 1])"

lemmas bitmap_get_simps =
  get_bitmap_clear_mod_p get_bitmap_clear_bit get_bitmap_duplicate_segment get_construct_vx2

lemma construct_5005:
  "construct_iZm_segment 5005 a b =
     (let (x5, x7) = construct_vx2 a b;
          x5a = bitmap_clear_mod_p (bitmap_clear_bit (bitmap_duplicate_segment x5 1 35 11) 2) 11 24 386;
          x7a = bitmap_clear_mod_p (bitmap_duplicate_segment x7 1 35 11) 11 20 386
      in (bitmap_clear_mod_p (bitmap_duplicate_segment x5a 1 385 13) 13 24 5006,
          bitmap_clear_mod_p (bitmap_clear_bit (bitmap_duplicate_segment x7a 1 385 13) 2) 13 28 5006))"
  by (simp add: construct_iZm_segment_def construct_iZm_loop.simps s_primes10_def Let_def split_beta)

lemma x5_5005_bit4:
  "bitmap_get_bit (fst (construct_iZm_segment 5005 (bitmap_create 5015) (bitmap_create 5015))) 4"
  by (simp add: construct_5005 Let_def split_beta bitmap_get_simps)

lemma exact_prime_test_19_23: "exact_prime_test 23 25" "exact_prime_test 19 25"
  by (simp_all add: exact_prime_test_def upto.simps)

lemma next_segments_forward_first:
  "bitmap_get_bit x5 (nat sx) \<Longrightarrow> pp (iZ_gmp (yvx + sx) (- 1)) TEST_ROUNDS \<Longrightarrow> sx \<le> v \<Longrightarrow>
   next_segments (Suc k) pp True v x5 x7 0 yvx sx = Some (iZ_gmp (yvx + sx) (- 1))"
proof -
  assume a: "bitmap_get_bit x5 (nat sx)" "pp (iZ_gmp (yvx + sx) (- 1)) TEST_ROUNDS" "sx \<le> v"
  have l: "[sx..v] = sx # [sx + 1..v]" using a(3) by (subst upto.simps) simp
  show ?thesis using a by (simp add: l)
qed

text \<open>
  Claim C3 says that \<open>iZ_next_prime(p, base, forward = true)\<close> returns the smallest
  probable prime above \<open>base\<close>. For \<open>base = 18\<close> the walk starts at
  \<open>x = (base / 6) mod vx + 1 = 4\<close>, whose first candidate is \<open>iZ(4, -1) = 23\<close>; the
  candidate \<open>19 = iZ(3, +1)\<close> lies above the base and is skipped.
\<close>

theorem iZ_next_prime_18_skips_19:
  "iZ_next_prime exact_prime_test 18 True = Some 23
   \<and> exact_prime_test 19 TEST_ROUNDS \<and> (18::int) < 19 \<and> (19::int) < 23"
proof -
  have k: "(1000::nat) = Suc 999" by simp
  have b: "bitmap_get_bit (fst (construct_iZm_segment 5005 (bitmap_create 5015) (bitmap_create 5015))) (nat 4)"
    using x5_5005_bit4 by simp
  have t: "exact_prime_test (iZ_gmp (0 + 4) (- 1)) TEST_ROUNDS"
    using exact_prime_test_19_23 by (simp add: iZ_gmp_def TEST_ROUNDS_def)
  have "next_segments (Suc 999) exact_prime_test True 5005
          (fst (construct_iZm_segment 5005 (bitmap_create 5015) (bitmap_create 5015)))
          (snd (construct_iZm_segment 5005 (bitmap_create 5015) (bitmap_create 5015))) 0 0 4
        = Some (iZ_gmp (0 + 4) (- 1))"
    using b t by (intro next_segments_forward_first) simp_all
  then have "iZ_next_prime exact_prime_test 18 True = Some 23"
    unfolding iZ_next_prime_def k
    by (simp add: Let_def split_beta iZ_gmp_def del: next_segments.simps)
  then show ?thesis
    using exact_prime_test_19_23 by (simp add: TEST_ROUNDS_def)
qed

section \<open>\<open>solve_for_x\<close> and the modular inverse\<close>

text \<open>
  Claim C5 says that \<open>solve_for_x\<close> returns the smallest \<open>x\<close> in \<open>[1, p]\<close> with
  \<open>iZ(y * vx + x, matrix_id)\<close> divisible by \<open>p\<close>, for every \<open>y \<ge> 0\<close>, and that
  \<open>solve_for_x_gmp\<close> returns the same. At \<open>matrix_id = -1\<close>, \<open>p = 23\<close>, \<open>vx = 35\<close>,
  \<open>y = 0\<close> the unsigned difference \<open>yvx - x_p = 0 - 4\<close> wraps to \<open>2^64 - 4\<close> and
  \<open>solve_for_x\<close> returns 21, where \<open>iZ(21, -1) = 125\<close> is not divisible by 23; the
  smallest solution is 4 (\<open>iZ(4, -1) = 23\<close>), which is what \<open>solve_for_x_gmp\<close> returns.
\<close>

theorem solve_for_x_wraps_at_y_0:
  "solve_for_x (- 1) 23 35 0 = 21
   \<and> \<not> 23 dvd iZ (0 * 35 + 21) (- 1)
   \<and> 23 dvd iZ (0 * 35 + 4) (- 1)
   \<and> solve_for_x_gmp (- 1) 23 35 0 = 4"
  by (simp add: solve_for_x_def solve_for_x_gmp_def iZ_def Let_def)

text \<open>
  Claim C8 says that \<open>modular_inverse\<close> returns the inverse of \<open>a\<close> modulo \<open>m\<close> and
  that \<open>modular_inverse_gmp\<close> computes the same inverse. At \<open>a = 3\<close>, \<open>m = 7\<close> the
  first returns 5 (\<open>5 * 3 = 15\<close>, which is 1 modulo 7) and the second returns 1.
\<close>

theorem modular_inverse_gmp_3_7:
  "modular_inverse_gmp 3 7 = Some 1 \<and> (1 * 3) mod 7 \<noteq> (1::int)
   \<and> modular_inverse 3 7 = Some 5 \<and> (5 * 3) mod 7 = (1::int)"
  by code_simp

end
